theory Spec2Isabelle
  imports Main
begin

section \<open>The message transport (src/cdp/webSocketTransport.ts)\<close>

text \<open>
  The transport holds one socket of the external \<open>ws\<close> library in its field \<open>_ws\<close>.
  The socket is an object of that library; the model keeps of it what the transport
  reads and writes: its ready state and the listeners registered for its close event,
  in registration order. The frames the library accepted for writing are logged in the
  transport's \<open>wire\<close>.
\<close>

datatype ready_state = CONNECTING | OPEN | CLOSING | CLOSED

text \<open>The two listeners the transport registers for the socket's close event.\<close>

datatype close_listener =
    CtorOnClose       \<comment> \<open>constructor: \<open>endEmitter.fire(); this._ws = undefined\<close>\<close>
  | DisposeResolve    \<comment> \<open>dispose: \<open>() => resolve()\<close>\<close>

record WebSocket =
  readyState :: ready_state
  closeListeners :: "close_listener list"

record ws_options =
  headers :: "(string \<times> string) list"
  perMessageDeflate :: bool
  maxPayload :: nat
  rejectUnauthorized :: bool
  followRedirects :: bool

record WebSocketTransport =
  ws :: "WebSocket option"      \<comment> \<open>\<open>_ws\<close>; \<open>None\<close> is \<open>undefined\<close>\<close>
  endFired :: nat               \<comment> \<open>number of \<open>endEmitter.fire()\<close> calls\<close>
  disposeResolved :: nat        \<comment> \<open>number of promises returned by \<open>dispose\<close> that have resolved\<close>
  wire :: "string list"         \<comment> \<open>frames handed to the socket and accepted by it\<close>

datatype transport_error = ConnectError string | SendError string

text \<open>\<open>String.prototype.startsWith\<close>.\<close>

definition startsWith :: "string \<Rightarrow> string \<Rightarrow> bool" where
  "startsWith s p = (take (length p) s = p)"

text \<open>
  The options object \<open>create\<close> passes to \<open>new WebSocket(url, [], {...})\<close>. The result of
  the external \<open>isLoopback(url)\<close> is the parameter \<open>targetAddressIsLoopback\<close>.
\<close>

definition connect_options :: "string \<Rightarrow> bool \<Rightarrow> ws_options" where
  "connect_options url targetAddressIsLoopback =
     (let isSecure = \<not> startsWith url ''ws://'' in
      \<lparr> headers = [(''host'', ''localhost'')],
        perMessageDeflate = False,
        maxPayload = 256 * 1024 * 1024,
        rejectUnauthorized = \<not> (isSecure \<and> targetAddressIsLoopback),
        followRedirects = True \<rparr>)"

text \<open>The constructor: stores the socket and registers its close listener.\<close>

definition new_transport :: "WebSocket \<Rightarrow> WebSocketTransport" where
  "new_transport w =
     \<lparr> ws = Some (w\<lparr>closeListeners := closeListeners w @ [CtorOnClose]\<rparr>),
       endFired = 0, disposeResolved = 0, wire = [] \<rparr>"

text \<open>
  One connection attempt of \<open>create\<close> ends in one of three ways: the socket opens, it
  reports an error, or the two-second timeout (or the caller's cancellation) wins.
  With each failed attempt comes what \<open>cancellationToken.isCancellationRequested\<close> reads
  in the catch block.
\<close>

datatype attempt = Opened | Failed string bool

text \<open>
  \<open>create\<close>: the loop \<open>while (true) { try { ... } catch { ... } }\<close> over the attempts the
  environment supplies. The result carries the options of every socket that was
  constructed, and the outcome: the transport, the error rethrown after cancellation, or
  \<open>None\<close> when the supplied attempts are used up and the loop is still retrying.
\<close>

fun create :: "string \<Rightarrow> bool \<Rightarrow> attempt list
    \<Rightarrow> ws_options list \<times> (transport_error + WebSocketTransport) option" where
  "create url lb [] = ([], None)"
| "create url lb (Opened # rest) =
     ([connect_options url lb],
      Some (Inr (new_transport \<lparr> readyState = OPEN, closeListeners = [] \<rparr>)))"
| "create url lb (Failed err cancelled # rest) =
     (if cancelled then ([connect_options url lb], Some (Inl (ConnectError err)))
      else (case create url lb rest of (os, r) \<Rightarrow> (connect_options url lb # os, r)))"

text \<open>
  \<open>send\<close>: \<open>this._ws?.send(message)\<close>. What the library's \<open>send\<close> does with a socket in
  a given ready state is the parameter \<open>lib_send\<close>: it throws (\<open>Inl\<close>) or accepts the
  frames it returns.
\<close>

definition send :: "(ready_state \<Rightarrow> string \<Rightarrow> transport_error + string list)
    \<Rightarrow> WebSocketTransport \<Rightarrow> string \<Rightarrow> transport_error + WebSocketTransport" where
  "send lib_send t message =
     (case ws t of
        None \<Rightarrow> Inr t
      | Some w \<Rightarrow>
          (case lib_send (readyState w) message of
             Inl e \<Rightarrow> Inl e
           | Inr frames \<Rightarrow> Inr (t\<lparr>wire := wire t @ frames\<rparr>)))"

text \<open>One close listener runs.\<close>

fun run_close_listener :: "close_listener \<Rightarrow> WebSocketTransport \<Rightarrow> WebSocketTransport" where
  "run_close_listener CtorOnClose t = t\<lparr>endFired := endFired t + 1, ws := None\<rparr>"
| "run_close_listener DisposeResolve t = t\<lparr>disposeResolved := disposeResolved t + 1\<rparr>"

text \<open>
  The socket emits its close event: the listeners registered on it run in registration
  order. A transport whose handle is already cleared has seen the event, and a socket
  closes once.
\<close>

definition close_event :: "WebSocketTransport \<Rightarrow> WebSocketTransport" where
  "close_event t =
     (case ws t of
        None \<Rightarrow> t
      | Some w \<Rightarrow> fold run_close_listener (closeListeners w) t)"

text \<open>
  \<open>dispose\<close>: with no live handle the promise resolves at once; otherwise a second
  close listener is registered and the socket is asked to close.
\<close>

definition dispose :: "WebSocketTransport \<Rightarrow> WebSocketTransport" where
  "dispose t =
     (case ws t of
        None \<Rightarrow> t\<lparr>disposeResolved := disposeResolved t + 1\<rparr>
      | Some w \<Rightarrow>
          t\<lparr>ws := Some (w\<lparr>closeListeners := closeListeners w @ [DisposeResolve],
                           readyState := CLOSING\<rparr>)\<rparr>)"

text \<open>
  What can happen to a transport after its construction. An exception thrown by
  \<open>send\<close> goes to the caller and leaves the transport as it was.
\<close>

datatype transport_event = Send string | Dispose | CloseEvent

fun transport_step :: "(ready_state \<Rightarrow> string \<Rightarrow> transport_error + string list)
    \<Rightarrow> WebSocketTransport \<Rightarrow> transport_event \<Rightarrow> WebSocketTransport" where
  "transport_step lib_send t (Send m) =
     (case send lib_send t m of Inl e \<Rightarrow> t | Inr t' \<Rightarrow> t')"
| "transport_step lib_send t Dispose = dispose t"
| "transport_step lib_send t CloseEvent = close_event t"

definition transport_run :: "(ready_state \<Rightarrow> string \<Rightarrow> transport_error + string list)
    \<Rightarrow> WebSocket \<Rightarrow> transport_event list \<Rightarrow> WebSocketTransport" where
  "transport_run lib_send w es = foldl (transport_step lib_send) (new_transport w) es"

section \<open>Threads and their manager (src/thread.ts)\<close>

text \<open>
  The file holds two versions of the module; the claims concern the second one (class
  \<open>ThreadManager\<close> and the class \<open>Thread\<close> that implements \<open>VariableStoreDelegate\<close>),
  which is the one modelled here.

  Objects that refer to one another (threads, scripts, sources) live in stores, and a
  reference is the object's key: a thread's id, a source's number. A JavaScript \<open>Map\<close>
  or \<open>Set\<close> is a list in insertion order. What a thread sends to its target through
  its \<open>Cdp.Api\<close> and what it reports to the client through the \<open>Dap.Api\<close> is logged in
  the thread, in call order, and so are the calls of its \<open>updateCustomBreakpoint\<close>.
\<close>

subsection \<open>Data\<close>

text \<open>A JavaScript object with string properties; a missing property reads \<open>undefined\<close>.\<close>

type_synonym js_object = "(string \<times> string) list"

text \<open>\<open>Cdp.Debugger.PausedEvent\<close>. \<open>event_data\<close> and \<open>hitBreakpoints\<close> are optional.\<close>

record PausedEvent =
  event_reason :: string
  event_data :: "js_object option"
  hitBreakpoints :: "string list option"
  callFrames :: "string list"

text \<open>
  \<open>PausedDetails\<close>. The stack trace is built by the external \<open>StackTrace.fromDebugger\<close>;
  it is represented by the call frames it is built from.
\<close>

record PausedDetails =
  reason :: string
  description :: string
  stackTrace :: "string list"
  details_text :: "string option"
  exception :: "js_object option"

text \<open>
  \<open>Script = { scriptId, source, thread }\<close>. Every script-parsed event makes a new
  object, and the set of scripts a source keeps compares objects by identity: \<open>oid\<close> is
  that identity.
\<close>

record Script =
  scriptId :: string
  source :: nat
  thread :: nat
  oid :: nat

text \<open>\<open>Cdp.Debugger.ScriptParsedEvent\<close>, the fields \<open>_onScriptParsed\<close> reads.\<close>

record ScriptParsedEvent =
  parsed_scriptId :: string
  parsed_url :: string
  startLine :: nat
  startColumn :: nat
  sourceMapURL :: string

text \<open>
  A \<open>Source\<close> of the external source container, as far as the thread sees it: what
  \<open>addSource\<close> was given, and the property \<open>source[kScriptsSymbol]\<close> the thread attaches
  (\<open>None\<close> while the property is absent).
\<close>

record Source =
  source_url :: string
  sourceMapUrl :: "string option"
  inlineSourceOffset :: "(nat \<times> nat) option"
  kScripts :: "Script list option"

datatype cdp_command =
    RuntimeEnable
  | DebuggerEnable
  | DebuggerSetAsyncCallStackDepth nat
  | DebuggerSetInstrumentationBreakpoint string
  | DebuggerSetPauseOnExceptions string
  | DebuggerResume
  | CustomBreakpointApply string bool   \<comment> \<open>\<open>breakpoint.apply(cdp, enabled)\<close> of the catalog entry\<close>

datatype dap_event =
    DapThread string nat                          \<comment> \<open>reason, threadId\<close>
  | DapStopped string string nat "string option"  \<comment> \<open>reason, description, threadId, text\<close>
  | DapContinued nat
  | DapConsoleError string                        \<comment> \<open>\<open>errors.reportToConsole\<close>\<close>

record Thread =
  name :: string
  threadBaseUrl :: string
  parentThread :: "nat option"
  childThreads :: "nat list"
  supportsCustomBreakpoints :: bool
  supportsSourceMapPause :: bool
  scripts :: "(string \<times> Script) list"
  pausedDetails :: "PausedDetails option"
  pausedVariables :: bool                        \<comment> \<open>a \<open>VariableStore\<close> for the pause exists\<close>
  pausedForSourceMapScriptId :: "string option"
  executionContexts :: "(nat \<times> string) list"
  cdp :: "cdp_command list"
  dap :: "dap_event list"
  updateCalls :: "(string \<times> bool \<times> bool) list"
    \<comment> \<open>calls of \<open>updateCustomBreakpoint\<close>: id, \<open>enabled\<close>, the value the promise resolves to\<close>

record ThreadConfiguration =
  cfg_supportsCustomBreakpoints :: "bool option"

text \<open>
  What the manager's emitters fire. \<open>_removeThread\<close> fires with the thread it found in
  its map, which is \<open>undefined\<close> (\<open>None\<close>) for an id that is not registered.
\<close>

datatype manager_event = ThreadAdded nat | ThreadRemoved "nat option" | ExecutionContextsChanged

text \<open>
  The manager, the thread objects it created (\<open>heap\<close>, by thread id; a disposed thread
  stays an object), and the source container.
\<close>

record world =
  lastThreadId :: nat
  heap :: "nat \<Rightarrow> Thread option"
  threads :: "nat list"                          \<comment> \<open>keys of \<open>manager._threads\<close>\<close>
  pauseOnExceptionsState :: string
  customBreakpoints :: "string list"             \<comment> \<open>\<open>manager._customBreakpoints\<close>\<close>
  scriptWithSourceMapHandler :: bool             \<comment> \<open>a handler is registered\<close>
  fired :: "manager_event list"
  lastObjectId :: nat
  sources :: "nat \<Rightarrow> Source option"
  sourceByUrl :: "string \<Rightarrow> nat option"
  removedSources :: "nat list"                   \<comment> \<open>calls of \<open>sourceContainer.removeSource\<close>\<close>
  pendingSourceMapWaits :: "nat list"            \<comment> \<open>scripts whose source-map sources are awaited\<close>

text \<open>
  The external collaborators the code calls are parameters: the custom-breakpoint
  catalog (an id's entry is its \<open>details\<close> renderer, giving the short and the long
  text), the path resolver, \<open>urlUtils.completeUrl\<close> and the configured timeouts.
\<close>

type_synonym catalog = "string \<Rightarrow> (js_object \<Rightarrow> string \<times> string) option"

record env =
  customBreakpointCatalog :: catalog
  scriptUrlToUrl :: "string \<Rightarrow> string"
  completeUrl :: "string \<Rightarrow> string \<Rightarrow> string option"
  timeout_scriptPaused :: nat
  timeout_output :: nat

text \<open>
  Modelled from the spec: localization is an external collaborator (\<open>vscode-nls\<close>, not
  among the sources); with no translation loaded \<open>localize(key, message)\<close> is the
  message.
\<close>

definition localize :: "string \<Rightarrow> string \<Rightarrow> string" where
  "localize key message = message"

text \<open>Reading a property of an optional object, \<open>undefined\<close> and \<open>''\<close> being falsy.\<close>

definition prop_truthy :: "js_object option \<Rightarrow> string \<Rightarrow> bool" where
  "prop_truthy d k =
     (case d of None \<Rightarrow> False
      | Some obj \<Rightarrow> (case map_of obj k of None \<Rightarrow> False | Some v \<Rightarrow> v \<noteq> []))"

subsection \<open>Pause details\<close>

definition resolveEventListenerBreakpointDetails ::
    "catalog \<Rightarrow> string list \<Rightarrow> PausedEvent \<Rightarrow> PausedDetails" where
  "resolveEventListenerBreakpointDetails cat st event =
     (let data = event_data event;
          bid = (case data of None \<Rightarrow> []
                 | Some obj \<Rightarrow> (case map_of obj ''eventName'' of None \<Rightarrow> [] | Some v \<Rightarrow> v))
      in case cat bid of
           Some details \<Rightarrow>
             (let d = details (case data of None \<Rightarrow> [] | Some obj \<Rightarrow> obj) in
              \<lparr> reason = ''function breakpoint'', description = fst d, stackTrace = st,
                details_text = Some (snd d), exception = None \<rparr>)
         | None \<Rightarrow>
             \<lparr> reason = ''function breakpoint'',
               description = localize ''pause.eventListener'' ''Paused on event listener'',
               stackTrace = st, details_text = None, exception = None \<rparr>)"

definition createPausedDetails :: "catalog \<Rightarrow> PausedEvent \<Rightarrow> PausedDetails" where
  "createPausedDetails cat event =
     (let st = callFrames event; r = event_reason event in
      if r = ''assert'' then
        \<lparr> reason = ''exception'', description = localize ''pause.assert'' ''Paused on assert'',
          stackTrace = st, details_text = None, exception = None \<rparr>
      else if r = ''debugCommand'' then
        \<lparr> reason = ''pause'',
          description = localize ''pause.debugCommand'' ''Paused on debug() call'',
          stackTrace = st, details_text = None, exception = None \<rparr>
      else if r = ''DOM'' then
        \<lparr> reason = ''data breakpoint'',
          description = localize ''pause.DomBreakpoint'' ''Paused on DOM breakpoint'',
          stackTrace = st, details_text = None, exception = None \<rparr>
      else if r = ''EventListener'' then resolveEventListenerBreakpointDetails cat st event
      else if r = ''exception'' then
        \<lparr> reason = ''exception'',
          description = localize ''pause.exception'' ''Paused on exception'',
          stackTrace = st, details_text = None, exception = event_data event \<rparr>
      else if r = ''promiseRejection'' then
        \<lparr> reason = ''exception'',
          description = localize ''pause.promiseRejection'' ''Paused on promise rejection'',
          stackTrace = st, details_text = None, exception = None \<rparr>
      else if r = ''instrumentation'' then
        \<lparr> reason = ''function breakpoint'',
          description = localize ''pause.instrumentation''
            ''Paused on instrumentation breakpoint'',
          stackTrace = st, details_text = None, exception = None \<rparr>
      else if r = ''XHR'' then
        \<lparr> reason = ''data breakpoint'',
          description = localize ''pause.xhr'' ''Paused on XMLHttpRequest or fetch'',
          stackTrace = st, details_text = None, exception = None \<rparr>
      else if r = ''OOM'' then
        \<lparr> reason = ''exception'',
          description = localize ''pause.oom'' ''Paused before Out Of Memory exception'',
          stackTrace = st, details_text = None, exception = None \<rparr>
      else if (case hitBreakpoints event of None \<Rightarrow> False | Some hs \<Rightarrow> hs \<noteq> []) then
        \<lparr> reason = ''breakpoint'',
          description = localize ''pause.breakpoint'' ''Paused on breakpoint'',
          stackTrace = st, details_text = None, exception = None \<rparr>
      else
        \<lparr> reason = ''step'', description = localize ''pause.default'' ''Paused'',
          stackTrace = st, details_text = None, exception = None \<rparr>)"

text \<open>\<open>_reportPaused\<close> and \<open>_reportResumed\<close>; \<open>tid\<close> is the thread's id.\<close>

definition reportPaused :: "nat \<Rightarrow> Thread \<Rightarrow> Thread" where
  "reportPaused tid th =
     (case pausedDetails th of
        None \<Rightarrow> th
      | Some details \<Rightarrow>
          th\<lparr>dap := dap th @
            [DapStopped (reason details) (description details) tid (details_text details)]\<rparr>)"

definition reportResumed :: "nat \<Rightarrow> Thread \<Rightarrow> Thread" where
  "reportResumed tid th = th\<lparr>dap := dap th @ [DapContinued tid]\<rparr>"

definition onResumed :: "nat \<Rightarrow> Thread \<Rightarrow> Thread" where
  "onResumed tid th =
     reportResumed tid (th\<lparr>pausedDetails := None, pausedVariables := False\<rparr>)"

subsection \<open>The gated source-map pause\<close>

text \<open>
  \<open>_handleSourceMapPause\<close> awaits two things of the environment. The first is the race
  between \<open>waitForSourceMapSources\<close> and the timer: the wait resolves first with the
  sources it found, the timer resolves first with no sources, or the wait rejects
  first. The second is the registered handler's promise: it fulfils, rejects, or stays
  pending.
\<close>

datatype race_outcome = WaitResolved "nat list" | TimerFired | WaitRejected

datatype handler_outcome = HandlerFulfilled | HandlerRejected | HandlerPending

text \<open>
  How the \<open>async\<close> function ended: it ran to its end, it threw (its promise rejects, and
  nobody handles that), or it is suspended for good.
\<close>

datatype async_end = Returned | Threw | Suspended

text \<open>
  \<open>handlerRegistered\<close> is \<open>this.manager._scriptWithSourceMapHandler\<close> read after the
  race. An array, empty or not, is truthy, so \<open>sources && handler\<close> is the handler.
  A rejected \<open>await\<close> throws, and the function has no \<open>try\<close>: the statements after it
  do not run. \<open>console.assert\<close> only logs.
\<close>

definition handleSourceMapPause ::
    "bool \<Rightarrow> race_outcome \<Rightarrow> handler_outcome \<Rightarrow> Thread \<Rightarrow> string \<Rightarrow> Thread \<times> async_end" where
  "handleSourceMapPause handlerRegistered race handler th sid =
     (let th1 = th\<lparr>pausedForSourceMapScriptId := Some sid\<rparr>;
          finish = (th1\<lparr>pausedForSourceMapScriptId := None,
                        cdp := cdp th1 @ [DebuggerResume]\<rparr>, Returned)
      in case map_of (scripts th1) sid of
           None \<Rightarrow> finish
         | Some script \<Rightarrow>
             (case race of
                WaitRejected \<Rightarrow> (th1, Threw)
              | _ \<Rightarrow>
                  if handlerRegistered then
                    (case handler of
                       HandlerFulfilled \<Rightarrow> finish
                     | HandlerRejected \<Rightarrow> (th1, Threw)
                     | HandlerPending \<Rightarrow> (th1, Suspended))
                  else finish))"

text \<open>The listener \<open>initialize\<close> registers for \<open>Debugger.paused\<close>.\<close>

definition onPaused ::
    "catalog \<Rightarrow> bool \<Rightarrow> race_outcome \<Rightarrow> handler_outcome \<Rightarrow> nat \<Rightarrow> Thread \<Rightarrow> PausedEvent
     \<Rightarrow> Thread" where
  "onPaused cat handlerRegistered race handler tid th event =
     (if event_reason event = ''instrumentation'' \<and> prop_truthy (event_data event) ''scriptId''
      then fst (handleSourceMapPause handlerRegistered race handler th
                  (the (map_of (the (event_data event)) ''scriptId'')))
      else reportPaused tid
             (th\<lparr>pausedDetails := Some (createPausedDetails cat event),
                 pausedVariables := True\<rparr>))"

subsection \<open>Arrays, maps and sets of JavaScript\<close>

text \<open>\<open>Array.prototype.indexOf\<close>: the first index of the element, or \<open>-1\<close>.\<close>

fun indexOf :: "'a list \<Rightarrow> 'a \<Rightarrow> int" where
  "indexOf [] x = - 1"
| "indexOf (y # ys) x =
     (if y = x then 0 else (let i = indexOf ys x in if i < 0 then - 1 else i + 1))"

text \<open>
  \<open>Array.prototype.splice(start, deleteCount)\<close> with no items to insert, as the array
  is afterwards. A negative \<open>start\<close> counts from the end.
\<close>

definition array_splice :: "'a list \<Rightarrow> int \<Rightarrow> nat \<Rightarrow> 'a list" where
  "array_splice xs start deleteCount =
     (let len = int (length xs);
          s = nat (if start < 0 then max (len + start) 0 else min start len)
      in take s xs @ drop (s + deleteCount) xs)"

text \<open>\<open>Map.prototype.set\<close>: a known key keeps its place, a new one goes last.\<close>

fun map_set :: "'k \<Rightarrow> 'v \<Rightarrow> ('k \<times> 'v) list \<Rightarrow> ('k \<times> 'v) list" where
  "map_set k v [] = [(k, v)]"
| "map_set k v (p # ps) = (if fst p = k then (k, v) # ps else p # map_set k v ps)"

text \<open>\<open>Set.prototype.add\<close>.\<close>

definition set_add :: "'a \<Rightarrow> 'a list \<Rightarrow> 'a list" where
  "set_add x xs = (if x \<in> set xs then xs else xs @ [x])"

subsection \<open>Custom breakpoints\<close>

definition updateCustomBreakpoint :: "catalog \<Rightarrow> Thread \<Rightarrow> string \<Rightarrow> bool \<Rightarrow> Thread \<times> bool" where
  "updateCustomBreakpoint cat th bid enabled =
     (let th1 = th\<lparr>updateCalls := updateCalls th @ [(bid, enabled, True)]\<rparr> in
      if \<not> supportsCustomBreakpoints th1 then (th1, True)
      else (case cat bid of
              None \<Rightarrow> (th1, True)
            | Some breakpoint \<Rightarrow>
                (th1\<lparr>cdp := cdp th1 @ [CustomBreakpointApply bid enabled]\<rparr>, True)))"

text \<open>The inner loop of both methods: \<open>for (const thread of this._threads.values())\<close>.\<close>

definition updateAllThreads :: "catalog \<Rightarrow> string \<Rightarrow> bool \<Rightarrow> world \<Rightarrow> world" where
  "updateAllThreads cat bid enabled w =
     fold (\<lambda>tid w'. case heap w' tid of
                       None \<Rightarrow> w'
                     | Some th \<Rightarrow>
                         w'\<lparr>heap := (heap w')(tid \<mapsto> fst (updateCustomBreakpoint cat th bid enabled))\<rparr>)
          (threads w) w"

definition enableCustomBreakpoints :: "catalog \<Rightarrow> world \<Rightarrow> string list \<Rightarrow> world" where
  "enableCustomBreakpoints cat w ids =
     fold (\<lambda>bid w'. updateAllThreads cat bid True
                      (w'\<lparr>customBreakpoints := set_add bid (customBreakpoints w')\<rparr>))
          ids w"

definition disableCustomBreakpoints :: "catalog \<Rightarrow> world \<Rightarrow> string list \<Rightarrow> world" where
  "disableCustomBreakpoints cat w ids =
     fold (\<lambda>bid w'. updateAllThreads cat bid False
                      (w'\<lparr>customBreakpoints := set_add bid (customBreakpoints w')\<rparr>))
          ids w"

subsection \<open>Creating and initializing a thread\<close>

text \<open>A manager with no thread, nothing enabled, and an empty source container.\<close>

definition new_world :: world where
  "new_world =
     \<lparr> lastThreadId = 0, heap = (\<lambda>t. None), threads = [], pauseOnExceptionsState = ''none'',
       customBreakpoints = [], scriptWithSourceMapHandler = False, fired = [],
       lastObjectId = 0, sources = (\<lambda>r. None), sourceByUrl = (\<lambda>u. None),
       removedSources = [], pendingSourceMapWaits = [] \<rparr>"

text \<open>The fields the constructor of \<open>Thread\<close> sets.\<close>

definition new_thread :: "nat option \<Rightarrow> ThreadConfiguration \<Rightarrow> Thread" where
  "new_thread parent configuration =
     \<lparr> name = [], threadBaseUrl = [], parentThread = parent, childThreads = [],
       supportsCustomBreakpoints =
         (case cfg_supportsCustomBreakpoints configuration of None \<Rightarrow> False | Some b \<Rightarrow> b),
       supportsSourceMapPause = False, scripts = [], pausedDetails = None,
       pausedVariables = False, pausedForSourceMapScriptId = None,
       executionContexts = [], cdp = [], dap = [], updateCalls = [] \<rparr>"

text \<open>
  \<open>createThread\<close>, that is the constructor of \<open>Thread\<close>: the new thread joins its
  parent's children, takes the next id and is registered with the manager
  (\<open>_addThread\<close>). The result is the world and the new thread's id.
\<close>

definition createThread :: "world \<Rightarrow> nat option \<Rightarrow> ThreadConfiguration \<Rightarrow> world \<times> nat" where
  "createThread w parent configuration =
     (let tid = lastThreadId w + 1;
          w1 = (case parent of
                  None \<Rightarrow> w
                | Some p \<Rightarrow>
                    (case heap w p of
                       None \<Rightarrow> w
                     | Some pt \<Rightarrow>
                         w\<lparr>heap := (heap w)(p \<mapsto> pt\<lparr>childThreads := childThreads pt @ [tid]\<rparr>)\<rparr>))
      in (w1\<lparr>lastThreadId := tid, heap := (heap w1)(tid \<mapsto> new_thread parent configuration),
              threads := set_add tid (threads w1)\<rparr>, tid))"

definition updatePauseOnExceptionsState :: "string \<Rightarrow> Thread \<Rightarrow> Thread" where
  "updatePauseOnExceptionsState st th = th\<lparr>cdp := cdp th @ [DebuggerSetPauseOnExceptions st]\<rparr>"

text \<open>
  \<open>initialize\<close>. The listeners it registers are the functions of this theory that the
  environment calls with an event (\<open>onPaused\<close>, \<open>onScriptParsed\<close>, ...); what is left is
  the commands it sends, the loop over the enabled custom breakpoints, and the two
  notifications. The reply to \<open>setInstrumentationBreakpoint\<close> arrives later
  (\<open>instrumentationBreakpointReply\<close>).
\<close>

definition initialize :: "env \<Rightarrow> world \<Rightarrow> nat \<Rightarrow> world" where
  "initialize e w t =
     (case heap w t of
        None \<Rightarrow> w
      | Some th \<Rightarrow>
          (let th1 = th\<lparr>cdp := cdp th @
                       [RuntimeEnable, DebuggerEnable, DebuggerSetAsyncCallStackDepth 32]\<rparr>;
               th2 = (if timeout_scriptPaused e \<noteq> 0
                      then th1\<lparr>cdp := cdp th1 @ [DebuggerSetInstrumentationBreakpoint
                                   ''beforeScriptWithSourceMapExecution'']\<rparr>
                      else th1);
               th3 = updatePauseOnExceptionsState (pauseOnExceptionsState w) th2;
               th4 = fold (\<lambda>bid th'. fst (updateCustomBreakpoint (customBreakpointCatalog e)
                                              th' bid True))
                          (customBreakpoints w) th3;
               th5 = th4\<lparr>dap := dap th4 @ [DapThread ''started'' t]\<rparr>
           in w\<lparr>heap := (heap w)(t \<mapsto> th5), fired := fired w @ [ThreadAdded t]\<rparr>))"

definition instrumentationBreakpointReply :: "bool \<Rightarrow> Thread \<Rightarrow> Thread" where
  "instrumentationBreakpointReply result th = th\<lparr>supportsSourceMapPause := result\<rparr>"

subsection \<open>Scripts and sources\<close>

text \<open>
  Modelled from the spec: the source container is an external collaborator (its class
  is not among the sources). \<open>addSource\<close> creates a \<open>Source\<close> and registers it under its
  URL, so that \<open>sourceByUrl\<close> finds it; \<open>removeSource\<close> retires it, so that the URL no
  longer leads to it. Every call of \<open>removeSource\<close> is logged.
\<close>

definition addSource ::
    "string \<Rightarrow> string option \<Rightarrow> (nat \<times> nat) option \<Rightarrow> world \<Rightarrow> world \<times> nat" where
  "addSource u smu off w =
     (let sref = lastObjectId w + 1 in
      (w\<lparr>lastObjectId := sref,
         sources := (sources w)(sref \<mapsto>
           \<lparr> source_url = u, sourceMapUrl = smu, inlineSourceOffset = off, kScripts = None \<rparr>),
         sourceByUrl := (sourceByUrl w)(u \<mapsto> sref)\<rparr>, sref))"

definition removeSource :: "nat \<Rightarrow> world \<Rightarrow> world" where
  "removeSource sref w =
     w\<lparr>removedSources := removedSources w @ [sref],
       sourceByUrl := (\<lambda>u. if sourceByUrl w u = Some sref then None else sourceByUrl w u)\<rparr>"

text \<open>
  The body of the loop of \<open>_removeAllScripts\<close>, for one script: delete it from its
  source's set, and retire the source when the set is empty. A script of a thread's map
  was registered by \<open>_onScriptParsed\<close>, which creates the set; a source without the set
  is left as it is.
\<close>

definition removeScript :: "Script \<Rightarrow> world \<Rightarrow> world" where
  "removeScript script w =
     (case sources w (source script) of
        None \<Rightarrow> w
      | Some src \<Rightarrow>
          (case kScripts src of
             None \<Rightarrow> w
           | Some st \<Rightarrow>
               (let st' = removeAll script st;
                    w1 = w\<lparr>sources := (sources w)(source script \<mapsto> src\<lparr>kScripts := Some st'\<rparr>)\<rparr>
                in if st' = [] then removeSource (source script) w1 else w1)))"

definition removeAllScripts :: "world \<Rightarrow> nat \<Rightarrow> world" where
  "removeAllScripts w t =
     (case heap w t of
        None \<Rightarrow> w
      | Some th \<Rightarrow>
          fold removeScript (map snd (scripts th))
            (w\<lparr>heap := (heap w)(t \<mapsto> th\<lparr>scripts := []\<rparr>)\<rparr>))"

text \<open>\<open>_removeAllScripts\<close> stopped after \<open>k\<close> iterations of its loop.\<close>

definition removeScripts :: "nat \<Rightarrow> world \<Rightarrow> nat \<Rightarrow> world" where
  "removeScripts k w t =
     (case heap w t of
        None \<Rightarrow> w
      | Some th \<Rightarrow>
          fold removeScript (take k (map snd (scripts th)))
            (w\<lparr>heap := (heap w)(t \<mapsto> th\<lparr>scripts := []\<rparr>)\<rparr>))"

text \<open>A string or an optional string as a condition: \<open>undefined\<close> and \<open>''\<close> are falsy.\<close>

definition truthy :: "string option \<Rightarrow> bool" where
  "truthy v = (case v of None \<Rightarrow> False | Some s \<Rightarrow> s \<noteq> [])"

definition onScriptParsed :: "env \<Rightarrow> world \<Rightarrow> nat \<Rightarrow> ScriptParsedEvent \<Rightarrow> world" where
  "onScriptParsed e w t event =
     (case heap w t of
        None \<Rightarrow> w
      | Some th \<Rightarrow>
          (let u = scriptUrlToUrl e (parsed_url event);
               found = (if u \<noteq> [] then sourceByUrl w u else None);
               (w1, sref) =
                 (case found of
                    Some sref \<Rightarrow> (w, sref)
                  | None \<Rightarrow>
                      (let off = (if startLine event \<noteq> 0 \<or> startColumn event \<noteq> 0
                                  then Some (startLine event, startColumn event) else None);
                           resolvedSourceUrl = completeUrl e (threadBaseUrl th) u;
                           resolvedSourceMapUrl =
                             (if sourceMapURL event \<noteq> [] then
                                (if truthy resolvedSourceUrl
                                 then completeUrl e (the resolvedSourceUrl) (sourceMapURL event)
                                 else resolvedSourceUrl)
                              else None);
                           w' = (if sourceMapURL event \<noteq> [] \<and> \<not> truthy resolvedSourceMapUrl
                                 then w\<lparr>heap := (heap w)(t \<mapsto> th\<lparr>dap := dap th @
                                        [DapConsoleError (''Could not load source map from '' @
                                           sourceMapURL event)]\<rparr>)\<rparr>
                                 else w)
                       in addSource u resolvedSourceMapUrl off w'));
               script = \<lparr> scriptId = parsed_scriptId event, source = sref, thread = t,
                          oid = lastObjectId w1 + 1 \<rparr>;
               w2 = w1\<lparr>lastObjectId := lastObjectId w1 + 1\<rparr>;
               w3 = (case heap w2 t of
                       None \<Rightarrow> w2
                     | Some th2 \<Rightarrow>
                         w2\<lparr>heap := (heap w2)(t \<mapsto>
                              th2\<lparr>scripts := map_set (parsed_scriptId event) script (scripts th2)\<rparr>)\<rparr>);
               w4 = (case sources w3 sref of
                       None \<Rightarrow> w3
                     | Some src \<Rightarrow>
                         w3\<lparr>sources := (sources w3)(sref \<mapsto>
                              src\<lparr>kScripts := Some (set_add script
                                     (case kScripts src of None \<Rightarrow> [] | Some st \<Rightarrow> st))\<rparr>)\<rparr>)
           in if \<not> supportsSourceMapPause th \<and> sourceMapURL event \<noteq> []
              then w4\<lparr>pendingSourceMapWaits := pendingSourceMapWaits w4 @ [oid script]\<rparr>
              else w4))"

subsection \<open>Disposal\<close>

definition removeThread :: "nat \<Rightarrow> world \<Rightarrow> world" where
  "removeThread tid w =
     w\<lparr>threads := removeAll tid (threads w),
       fired := fired w @ [ThreadRemoved (if tid \<in> set (threads w) then Some tid else None)]\<rparr>"

definition executionContextsCleared :: "world \<Rightarrow> nat \<Rightarrow> world" where
  "executionContextsCleared w t =
     (let w1 = removeAllScripts w t in
      case heap w1 t of
        None \<Rightarrow> w1
      | Some th \<Rightarrow>
          (let th1 = (if pausedDetails th \<noteq> None then onResumed t th else th);
               th2 = th1\<lparr>executionContexts := []\<rparr>
           in w1\<lparr>heap := (heap w1)(t \<mapsto> th2), fired := fired w1 @ [ExecutionContextsChanged]\<rparr>))"

text \<open>
  The first statement of \<open>dispose\<close>, for a thread \<open>t\<close> with parent \<open>p\<close>: \<open>splice\<close> takes
  one element out of the parent's children at \<open>indexOf(this)\<close>, then \<open>push\<close> appends
  \<open>this._childThreads\<close>, read after the splice.
\<close>

definition handOverChildren :: "world \<Rightarrow> nat \<Rightarrow> nat \<Rightarrow> world" where
  "handOverChildren w t p =
     (case heap w p of
        None \<Rightarrow> w
      | Some pt \<Rightarrow>
          (let w1 = w\<lparr>heap := (heap w)(p \<mapsto>
                      pt\<lparr>childThreads :=
                           array_splice (childThreads pt) (indexOf (childThreads pt) t) 1\<rparr>)\<rparr>
           in case heap w1 p of
                None \<Rightarrow> w1
              | Some pt1 \<Rightarrow>
                  (case heap w1 t of
                     None \<Rightarrow> w1
                   | Some th1 \<Rightarrow>
                       w1\<lparr>heap := (heap w1)(p \<mapsto>
                            pt1\<lparr>childThreads := childThreads pt1 @ childThreads th1\<rparr>)\<rparr>)))"

text \<open>
  \<open>Thread.dispose\<close>. \<open>eventUtils.removeEventListeners(this._eventListeners)\<close> changes
  nothing here: the list is never added to.
\<close>

definition Thread_dispose :: "world \<Rightarrow> nat \<Rightarrow> world" where
  "Thread_dispose w t =
     (case heap w t of
        None \<Rightarrow> w
      | Some th \<Rightarrow>
          (let w1 = (case parentThread th of None \<Rightarrow> w | Some p \<Rightarrow> handOverChildren w t p);
               w2 = removeAllScripts w1 t;
               w3 = removeThread t w2;
               w4 = (case heap w3 t of
                       None \<Rightarrow> w3
                     | Some th3 \<Rightarrow>
                         w3\<lparr>heap := (heap w3)(t \<mapsto> th3\<lparr>dap := dap th3 @ [DapThread ''exited'' t]\<rparr>)\<rparr>)
           in executionContextsCleared w4 t))"

subsection \<open>Output slots\<close>

text \<open>
  \<open>claimOutputSlot\<close> chains promises. The \<open>k\<close>-th claim reads the chain so far
  (\<open>slot\<close>), makes a promise \<open>p\<close> that its \<open>callback\<close> resolves, and stores
  \<open>slot.then(() => p)\<close> as the new chain. So the chain a later claim reads is resolved
  when the promises \<open>p\<close> of all earlier claims are. A slot of the model is one claim:
  whether its \<open>p\<close> is resolved (\<open>settled\<close>), and the calls of its delivery function
  that are suspended at \<open>await slot\<close>, in call order, each with its payload (\<open>waiting\<close>).
\<close>

record OutputEventParams =
  category :: string
  outputText :: string
  variablesReference :: nat

record output_slot =
  settled :: bool
  waiting :: "OutputEventParams option list"

text \<open>
  The slots of a thread in claim order, the calls \<open>_dap.output(payload)\<close> made so far,
  each with the number of the slot whose delivery function made it, and the manager's
  \<open>_consoleIsDirty\<close>.
\<close>

record output_state =
  slots :: "output_slot list"
  dap_output :: "(nat \<times> OutputEventParams) list"
  consoleIsDirty :: bool

definition new_output_state :: output_state where
  "new_output_state = \<lparr> slots = [], dap_output = [], consoleIsDirty = False \<rparr>"

text \<open>The escape sequence \<open>'\x1b[2J'\<close> that clears the console.\<close>

definition clearConsole :: string where
  "clearConsole = [CHR 0x1B, CHR ''['', CHR ''2'', CHR ''J'']"

text \<open>
  The delivery function of slot \<open>k\<close> from \<open>await slot\<close> on, up to \<open>callback()\<close>: the
  payload, if there is one and it is not a clearing of a clean console, goes to the
  client.
\<close>

definition emit :: "nat \<Rightarrow> OutputEventParams option \<Rightarrow> output_state \<Rightarrow> output_state" where
  "emit k payload s =
     (case payload of
        None \<Rightarrow> s
      | Some pl \<Rightarrow>
          (let isClearConsole = (outputText pl = clearConsole);
               noop = (isClearConsole \<and> \<not> consoleIsDirty s)
           in if noop then s
              else s\<lparr>dap_output := dap_output s @ [(k, pl)],
                     consoleIsDirty := \<not> isClearConsole\<rparr>))"

text \<open>
  The promise jobs that run once the slots before \<open>sl # rest\<close> are all settled, \<open>k\<close>
  being the number of \<open>sl\<close>: the suspended calls of \<open>sl\<close> continue, each emits and calls
  \<open>callback\<close>, which settles \<open>sl\<close>; with \<open>sl\<close> settled the chain read by the next slot
  is resolved and the same happens there. An unsettled slot with no suspended call
  blocks all later ones.
\<close>

fun resume_slots :: "nat \<Rightarrow> output_slot list \<Rightarrow> output_state \<Rightarrow> output_slot list \<times> output_state" where
  "resume_slots k [] s = ([], s)"
| "resume_slots k (sl # rest) s =
     (if waiting sl \<noteq> [] then
        (case resume_slots (Suc k) rest (fold (emit k) (waiting sl) s) of
           (rest', s') \<Rightarrow> (\<lparr>settled = True, waiting = []\<rparr> # rest', s'))
      else if settled sl then
        (case resume_slots (Suc k) rest s of (rest', s') \<Rightarrow> (sl # rest', s'))
      else (sl # rest, s))"

definition run_jobs :: "output_state \<Rightarrow> output_state" where
  "run_jobs s = (case resume_slots 0 (slots s) s of (sls, s') \<Rightarrow> s'\<lparr>slots := sls\<rparr>)"

text \<open>
  What happens to the slots of a thread: a call of \<open>claimOutputSlot\<close>; a call of the
  delivery function the \<open>k\<close>-th claim returned, with or without a payload; the timer of
  the \<open>k\<close>-th claim firing, which calls its \<open>callback\<close>. Slots are numbered from 0. A
  claim that was not made has no delivery function and no timer. After each of them
  the promise jobs run. Here a timer may fire at any moment; when the runtime fires
  the timer that \<open>claimOutputSlot\<close> arms is the subject of the next subsection.
\<close>

datatype output_event =
    Claim
  | Deliver nat "OutputEventParams option"
  | Timeout nat

fun output_step :: "output_state \<Rightarrow> output_event \<Rightarrow> output_state" where
  "output_step s Claim =
     run_jobs (s\<lparr>slots := slots s @ [\<lparr>settled = False, waiting = []\<rparr>]\<rparr>)"
| "output_step s (Deliver k payload) =
     (if k < length (slots s)
      then run_jobs (s\<lparr>slots := (slots s)[k := (slots s ! k)
                          \<lparr>waiting := waiting (slots s ! k) @ [payload]\<rparr>]\<rparr>)
      else s)"
| "output_step s (Timeout k) =
     (if k < length (slots s)
      then run_jobs (s\<lparr>slots := (slots s)[k := (slots s ! k)\<lparr>settled := True\<rparr>]\<rparr>)
      else s)"

definition output_run :: "output_state \<Rightarrow> output_event list \<Rightarrow> output_state" where
  "output_run s es = foldl output_step s es"

text \<open>
  A delivery function is called in time when its slot is not yet settled, by its timer
  or by an earlier call that has run. \<open>timely s es\<close>: in the run of \<open>es\<close> from \<open>s\<close>
  every call of a delivery function is in time.
\<close>

fun in_time :: "output_state \<Rightarrow> output_event \<Rightarrow> bool" where
  "in_time s (Deliver k payload) = (k < length (slots s) \<and> \<not> settled (slots s ! k))"
| "in_time s Claim = True"
| "in_time s (Timeout k) = True"

fun timely :: "output_state \<Rightarrow> output_event list \<Rightarrow> bool" where
  "timely s [] = True"
| "timely s (e # es) = (in_time s e \<and> timely (output_step s e) es)"

subsection \<open>Output slots with their timers\<close>

text \<open>
  \<open>claimOutputSlot\<close> ends with \<open>setTimeout(callback!, ...sourceMapTimeouts().output)\<close>:
  every claim arms a timer that is due the configured time after the claim. The state
  below adds to the slots the runtime's clock (in milliseconds) and the timers that are
  armed and have not fired, each with the number of its slot and the time it is due,
  in the order they were armed.
\<close>

record timed_state =
  serialized :: output_state
  clock :: nat
  timers :: "(nat \<times> nat) list"

definition new_timed_state :: timed_state where
  "new_timed_state = \<lparr> serialized = new_output_state, clock = 0, timers = [] \<rparr>"

text \<open>
  \<open>claimOutputSlot\<close>: the new slot is added to the chain, and its timer is armed with
  the configured delay.
\<close>

definition claimOutputSlot :: "env \<Rightarrow> timed_state \<Rightarrow> timed_state" where
  "claimOutputSlot e ts =
     ts\<lparr>serialized := output_step (serialized ts) Claim,
        timers := timers ts @
          [(length (slots (serialized ts)), clock ts + timeout_output e)]\<rparr>"

text \<open>
  The runtime runs the callbacks of the timers that are due, each as a task of its own
  (so the promise jobs run after each), and forgets them. The delay is the same for all
  claims and the clock only advances, so the timers are listed in the order they are
  due.
\<close>

definition run_timers :: "timed_state \<Rightarrow> timed_state" where
  "run_timers ts =
     ts\<lparr>serialized :=
          output_run (serialized ts)
            (map (\<lambda>t. Timeout (fst t)) (filter (\<lambda>t. snd t \<le> clock ts) (timers ts))),
        timers := filter (\<lambda>t. \<not> snd t \<le> clock ts) (timers ts)\<rparr>"

text \<open>
  What happens to a thread's output in time: a call of \<open>claimOutputSlot\<close>, a call of
  the delivery function the \<open>k\<close>-th claim returned, or \<open>d\<close> milliseconds passing, after
  which the runtime runs the timers that are due (\<open>Elapse 0\<close> is the runtime reaching
  its timers with no time passed).
\<close>

datatype timed_event =
    ClaimSlot
  | Call nat "OutputEventParams option"
  | Elapse nat

fun timed_step :: "env \<Rightarrow> timed_state \<Rightarrow> timed_event \<Rightarrow> timed_state" where
  "timed_step e ts ClaimSlot = claimOutputSlot e ts"
| "timed_step e ts (Call k payload) =
     ts\<lparr>serialized := output_step (serialized ts) (Deliver k payload)\<rparr>"
| "timed_step e ts (Elapse d) = run_timers (ts\<lparr>clock := clock ts + d\<rparr>)"

definition timed_run :: "env \<Rightarrow> timed_state \<Rightarrow> timed_event list \<Rightarrow> timed_state" where
  "timed_run e ts evs = foldl (timed_step e) ts evs"


section \<open>Invariants\<close>

text \<open>
  While the transport holds a socket, the constructor's close listener is registered
  on it and no \<open>dispose\<close> promise has resolved.
\<close>

definition transport_inv :: "WebSocketTransport \<Rightarrow> bool" where
  "transport_inv t =
     (case ws t of
        None \<Rightarrow> True
      | Some w \<Rightarrow> CtorOnClose \<in> set (closeListeners w) \<and> disposeResolved t = 0)"

text \<open>
  The scripts \<open>scs\<close>, in the order they were parsed, are the scripts of thread \<open>t\<close>;
  all of them have the source \<open>sref\<close>, which is registered under the URL \<open>u\<close> and
  whose set of scripts is \<open>scs\<close>; \<open>rs\<close> are the calls of \<open>removeSource\<close> so far.
\<close>

definition shares :: "world \<Rightarrow> nat \<Rightarrow> nat \<Rightarrow> string \<Rightarrow> Script list \<Rightarrow> nat list \<Rightarrow> bool" where
  "shares w t sref u scs rs =
     (\<exists>th src. heap w t = Some th \<and> scripts th = map (\<lambda>s. (scriptId s, s)) scs
        \<and> (\<forall>s\<in>set scs. source s = sref)
        \<and> sources w sref = Some src \<and> kScripts src = Some scs
        \<and> sourceByUrl w u = Some sref \<and> removedSources w = rs)"

text \<open>
  The output sent so far is in claim order, and every output of a slot at or after
  number \<open>k\<close> (the number of the first slot of \<open>sls\<close>) has all slots from \<open>k\<close> up to
  its own settled, with no suspended call.
\<close>

definition log_inv :: "nat \<Rightarrow> output_slot list \<Rightarrow> (nat \<times> OutputEventParams) list \<Rightarrow> bool" where
  "log_inv k sls lg =
     (sorted (map fst lg) \<and>
      (\<forall>i\<in>fst ` set lg. i < k \<or>
         (\<forall>j. k \<le> j \<and> j \<le> i \<longrightarrow>
            j - k < length sls \<and> settled (sls ! (j - k)) \<and> waiting (sls ! (j - k)) = [])))"





section \<open>Example worlds\<close>

text \<open>
  Five threads made by \<open>createThread\<close>: thread 1 has no parent, threads 2 and 3 are
  its children, threads 4 and 5 are children of thread 2.
\<close>

definition family :: world where
  "family =
     (let c = \<lparr>cfg_supportsCustomBreakpoints = None\<rparr>;
          w1 = fst (createThread new_world None c);
          w2 = fst (createThread w1 (Some 1) c);
          w3 = fst (createThread w2 (Some 1) c);
          w4 = fst (createThread w3 (Some 2) c)
      in fst (createThread w4 (Some 2) c))"

text \<open>One thread without a parent, an environment that leaves URLs as they are.\<close>

definition one_thread :: world where
  "one_thread = fst (createThread new_world None \<lparr>cfg_supportsCustomBreakpoints = None\<rparr>)"

definition plain_env :: env where
  "plain_env =
     \<lparr> customBreakpointCatalog = (\<lambda>i. None), scriptUrlToUrl = (\<lambda>u. u),
       completeUrl = (\<lambda>b u. Some u), timeout_scriptPaused = 1000, timeout_output = 1000 \<rparr>"

definition parsed :: "string \<Rightarrow> string \<Rightarrow> ScriptParsedEvent" where
  "parsed sid u =
     \<lparr> parsed_scriptId = sid, parsed_url = u, startLine = 0, startColumn = 0,
       sourceMapURL = [] \<rparr>"

text \<open>A payload with the given text.\<close>

definition text_payload :: "string \<Rightarrow> OutputEventParams" where
  "text_payload txt = \<lparr>category = ''stdout'', outputText = txt, variablesReference = 0\<rparr>"

section \<open>Properties of the transport\<close>

lemma create_options_all:
  "opt \<in> set (fst (create url lb as)) \<Longrightarrow> opt = connect_options url lb"
  by (induction url lb as rule: create.induct) (auto split: prod.splits if_splits)

text \<open>
  Claim C7. Every socket that \<open>WebSocketTransport.create\<close> constructs for a URL has
  certificate validation switched off (\<open>rejectUnauthorized\<close> false) exactly when the URL
  does not start with \<open>ws://\<close> and the target address is a loopback address; for a
  secure URL whose target is not a loopback address validation is enforced.
\<close>

theorem create_rejectUnauthorized:
  assumes "opt \<in> set (fst (create url lb as))"
  shows "(\<not> rejectUnauthorized opt) = (\<not> startsWith url ''ws://'' \<and> lb)
       \<and> (\<not> startsWith url ''ws://'' \<and> \<not> lb \<longrightarrow> rejectUnauthorized opt)"
  using create_options_all [OF assms] by (simp add: connect_options_def)

theorem create_rejectUnauthorized_witness:
  "connect_options ''wss://127.0.0.1:9229/a'' True
     \<in> set (fst (create ''wss://127.0.0.1:9229/a'' True [Failed ''refused'' False, Opened]))
   \<and> \<not> rejectUnauthorized (connect_options ''wss://127.0.0.1:9229/a'' True)
   \<and> connect_options ''wss://example.org/a'' False
     \<in> set (fst (create ''wss://example.org/a'' False [Opened]))
   \<and> rejectUnauthorized (connect_options ''wss://example.org/a'' False)"
proof -
  have a: "connect_options ''wss://127.0.0.1:9229/a'' True
     \<in> set (fst (create ''wss://127.0.0.1:9229/a'' True [Failed ''refused'' False, Opened]))"
    by simp
  have b: "connect_options ''wss://example.org/a'' False
     \<in> set (fst (create ''wss://example.org/a'' False [Opened]))"
    by simp
  show ?thesis
    using a b create_rejectUnauthorized [OF a] create_rejectUnauthorized [OF b]
    by (simp add: startsWith_def)
qed

lemma fold_listeners_ws:
  "ws (fold run_close_listener ls t) = (if CtorOnClose \<in> set ls then None else ws t)"
proof (induction ls arbitrary: t)
  case Nil
  show ?case by simp
next
  case (Cons l ls)
  show ?case by (cases l) (simp_all add: Cons.IH)
qed

lemma close_event_clears: "transport_inv t \<Longrightarrow> ws (close_event t) = None"
  by (cases "ws t") (simp_all add: transport_inv_def close_event_def fold_listeners_ws)

lemma send_Inr:
  "send lib t m = Inr t' \<Longrightarrow> ws t' = ws t \<and> disposeResolved t' = disposeResolved t"
  by (auto simp: send_def split: option.splits sum.splits)

lemma transport_step_inv:
  "transport_inv t \<Longrightarrow> transport_inv (transport_step lib t e)"
proof (cases e)
  case (Send m)
  assume inv: "transport_inv t"
  show ?thesis
  proof (cases "send lib t m")
    case (Inl err)
    with inv Send show ?thesis by simp
  next
    case (Inr t')
    then have "ws t' = ws t \<and> disposeResolved t' = disposeResolved t"
      by (rule send_Inr)
    with inv Send Inr show ?thesis by (cases "ws t") (simp_all add: transport_inv_def)
  qed
next
  case Dispose
  assume "transport_inv t"
  then show ?thesis
    using Dispose by (auto simp: transport_inv_def dispose_def split: option.splits)
next
  case CloseEvent
  assume "transport_inv t"
  then have "ws (close_event t) = None" by (rule close_event_clears)
  then show ?thesis using CloseEvent by (simp add: transport_inv_def)
qed

lemma transport_step_None:
  "ws t = None \<Longrightarrow> ws (transport_step lib t e) = None"
  by (cases e) (simp_all add: send_def dispose_def close_event_def)

lemma transport_run_snoc:
  "transport_run lib w (es @ [e]) = transport_step lib (transport_run lib w es) e"
  by (simp add: transport_run_def)

lemma transport_run_inv: "transport_inv (transport_run lib w es)"
proof (induction es rule: rev_induct)
  case Nil
  show ?case by (simp add: transport_run_def transport_inv_def new_transport_def)
next
  case (snoc e es)
  then show ?case by (simp add: transport_run_snoc transport_step_inv)
qed

lemma transport_run_closed:
  "CloseEvent \<in> set es \<Longrightarrow> ws (transport_run lib w es) = None"
proof (induction es rule: rev_induct)
  case Nil
  then show ?case by simp
next
  case (snoc e es)
  show ?case
  proof (cases "e = CloseEvent")
    case True
    then show ?thesis
      using close_event_clears [OF transport_run_inv [of lib w es]]
      by (simp add: transport_run_snoc)
  next
    case False
    with snoc.prems have "CloseEvent \<in> set es" by simp
    then have "ws (transport_run lib w es) = None" by (rule snoc.IH)
    then show ?thesis by (simp add: transport_run_snoc transport_step_None)
  qed
qed

lemma transport_run_disposed:
  "0 < disposeResolved (transport_run lib w es) \<Longrightarrow> ws (transport_run lib w es) = None"
  using transport_run_inv [of lib w es]
  by (auto simp: transport_inv_def split: option.splits)

text \<open>
  Claim C10. Once the socket's close event has fired, or a promise returned by
  \<open>dispose\<close> has resolved, \<open>send\<close> returns normally and leaves the transport as it
  is: the handle is cleared, the library's \<open>send\<close> is not called, no frame is written.
\<close>

theorem send_after_close_noop:
  assumes "CloseEvent \<in> set es \<or> 0 < disposeResolved (transport_run lib w es)"
  shows "send lib (transport_run lib w es) m = Inr (transport_run lib w es)"
proof -
  have "ws (transport_run lib w es) = None"
    using assms transport_run_closed transport_run_disposed by blast
  then show ?thesis by (simp add: send_def)
qed

theorem send_after_close_noop_witness:
  "CloseEvent \<in> set [Send ''a'', Dispose, CloseEvent]
   \<and> send (\<lambda>rs m. if rs = OPEN then Inr [m] else Inl (SendError ''not open''))
        (transport_run (\<lambda>rs m. if rs = OPEN then Inr [m] else Inl (SendError ''not open''))
           \<lparr>readyState = OPEN, closeListeners = []\<rparr> [Send ''a'', Dispose, CloseEvent]) ''b''
     = Inr \<lparr>ws = None, endFired = 1, disposeResolved = 1, wire = [''a'']\<rparr>"
proof -
  have run: "transport_run (\<lambda>rs m. if rs = OPEN then Inr [m] else Inl (SendError ''not open''))
           \<lparr>readyState = OPEN, closeListeners = []\<rparr> [Send ''a'', Dispose, CloseEvent]
      = \<lparr>ws = None, endFired = 1, disposeResolved = 1, wire = [''a'']\<rparr>"
    by (simp add: transport_run_def new_transport_def send_def dispose_def close_event_def)
  have h: "CloseEvent \<in> set [Send ''a'', Dispose, CloseEvent]" by simp
  show ?thesis
    using send_after_close_noop [of "[Send ''a'', Dispose, CloseEvent]"
        "\<lambda>rs m. if rs = OPEN then Inr [m] else Inl (SendError ''not open'')"
        "\<lparr>readyState = OPEN, closeListeners = []\<rparr>" "''b''", OF disjI1 [OF h]]
    by (simp add: run)
qed

section \<open>Properties of custom breakpoints\<close>

lemma updateAllThreads_fold_customBreakpoints:
  "customBreakpoints (fold (\<lambda>tid w'. case heap w' tid of
                       None \<Rightarrow> w'
                     | Some th \<Rightarrow>
                         w'\<lparr>heap := (heap w')(tid \<mapsto> fst (updateCustomBreakpoint cat th bid enabled))\<rparr>)
          ts w) = customBreakpoints w"
  by (induction ts arbitrary: w) (simp_all split: option.splits)

lemma updateAllThreads_customBreakpoints:
  "customBreakpoints (updateAllThreads cat bid enabled w) = customBreakpoints w"
  by (simp add: updateAllThreads_def updateAllThreads_fold_customBreakpoints)

lemma set_set_add: "set (set_add x xs) = insert x (set xs)"
  by (auto simp: set_add_def)

lemma disableCustomBreakpoints_set:
  "set (customBreakpoints (disableCustomBreakpoints cat w ids)) = set (customBreakpoints w) \<union> set ids"
  unfolding disableCustomBreakpoints_def
  by (induction ids arbitrary: w) (simp_all add: updateAllThreads_customBreakpoints set_set_add)

lemma enableCustomBreakpoints_set:
  "set (customBreakpoints (enableCustomBreakpoints cat w ids)) = set (customBreakpoints w) \<union> set ids"
  unfolding enableCustomBreakpoints_def
  by (induction ids arbitrary: w) (simp_all add: updateAllThreads_customBreakpoints set_set_add)

text \<open>
  Claim C3. The claim is that after \<open>disableCustomBreakpoints([id])\<close> the id is not in
  the manager's set of enabled custom breakpoints. The method adds the id, as
  \<open>enableCustomBreakpoints\<close> does: on a new manager \<open>disableCustomBreakpoints(['x'])\<close>
  leaves the set \<open>{'x'}\<close>, and so does disabling \<open>'x'\<close> after enabling it.
\<close>

theorem disableCustomBreakpoints_adds:
  "customBreakpoints (disableCustomBreakpoints (\<lambda>i. None) new_world [''x'']) = [''x'']
   \<and> customBreakpoints (disableCustomBreakpoints (\<lambda>i. None)
        (enableCustomBreakpoints (\<lambda>i. None) new_world [''x'']) [''x'']) = [''x'']"
  by (simp add: disableCustomBreakpoints_def enableCustomBreakpoints_def updateAllThreads_def
        new_world_def set_add_def)

lemma updateCustomBreakpoint_fst:
  "updateCalls (fst (updateCustomBreakpoint cat th b en)) = updateCalls th @ [(b, en, True)]"
  "supportsCustomBreakpoints (fst (updateCustomBreakpoint cat th b en)) = supportsCustomBreakpoints th"
  "set (cdp th) \<subseteq> set (cdp (fst (updateCustomBreakpoint cat th b en)))"
  "supportsCustomBreakpoints th \<Longrightarrow> cat b \<noteq> None \<Longrightarrow>
     CustomBreakpointApply b en \<in> set (cdp (fst (updateCustomBreakpoint cat th b en)))"
  "dap (fst (updateCustomBreakpoint cat th b en)) = dap th"
  by (auto simp: updateCustomBreakpoint_def Let_def split: option.splits)

lemma fold_update_mono:
  "set (updateCalls th) \<subseteq>
     set (updateCalls (fold (\<lambda>b th'. fst (updateCustomBreakpoint cat th' b True)) bids th))
   \<and> set (cdp th) \<subseteq>
     set (cdp (fold (\<lambda>b th'. fst (updateCustomBreakpoint cat th' b True)) bids th))
   \<and> supportsCustomBreakpoints (fold (\<lambda>b th'. fst (updateCustomBreakpoint cat th' b True)) bids th)
     = supportsCustomBreakpoints th"
proof (induction bids arbitrary: th)
  case Nil
  show ?case by simp
next
  case (Cons b bids)
  have a: "set (updateCalls th) \<subseteq> set (updateCalls (fst (updateCustomBreakpoint cat th b True)))"
    by (auto simp: updateCustomBreakpoint_fst(1))
  have c: "set (cdp th) \<subseteq> set (cdp (fst (updateCustomBreakpoint cat th b True)))"
    by (rule updateCustomBreakpoint_fst(3))
  show ?case
    using Cons.IH [of "fst (updateCustomBreakpoint cat th b True)"] a c
    by (simp add: updateCustomBreakpoint_fst(2)) blast
qed

lemma fold_update_calls:
  "bid \<in> set bids \<Longrightarrow>
   (bid, True, True) \<in> set (updateCalls (fold (\<lambda>b th'. fst (updateCustomBreakpoint cat th' b True)) bids th))
   \<and> (supportsCustomBreakpoints th \<and> cat bid \<noteq> None \<longrightarrow>
       CustomBreakpointApply bid True
         \<in> set (cdp (fold (\<lambda>b th'. fst (updateCustomBreakpoint cat th' b True)) bids th)))"
proof (induction bids arbitrary: th)
  case Nil
  then show ?case by simp
next
  case (Cons b bids)
  let ?th1 = "fst (updateCustomBreakpoint cat th b True)"
  show ?case
  proof (cases "bid = b")
    case True
    have "(bid, True, True) \<in> set (updateCalls ?th1)"
      using True by (simp add: updateCustomBreakpoint_fst(1))
    moreover have "supportsCustomBreakpoints th \<and> cat bid \<noteq> None \<longrightarrow>
        CustomBreakpointApply bid True \<in> set (cdp ?th1)"
      using True updateCustomBreakpoint_fst(4) [of th cat b True] by simp
    ultimately show ?thesis
      using fold_update_mono [of ?th1 cat bids] by auto
  next
    case False
    with Cons.prems have "bid \<in> set bids" by simp
    from Cons.IH [OF this, of ?th1] show ?thesis
      by (simp add: updateCustomBreakpoint_fst(2))
  qed
qed

lemma createThread_heap:
  "createThread w parent cfg = (w', t) \<Longrightarrow>
     \<exists>th. heap w' t = Some th
       \<and> supportsCustomBreakpoints th = (cfg_supportsCustomBreakpoints cfg = Some True)
       \<and> updateCalls th = [] \<and> cdp th = []
       \<and> customBreakpoints w' = customBreakpoints w"
  by (auto simp: createThread_def new_thread_def Let_def split: option.splits)

lemma initialize_heap:
  assumes "heap w t = Some th"
  shows "\<exists>th3. supportsCustomBreakpoints th3 = supportsCustomBreakpoints th
      \<and> heap (initialize e w t) t =
          Some ((fold (\<lambda>b th'. fst (updateCustomBreakpoint (customBreakpointCatalog e) th' b True))
                   (customBreakpoints w) th3)
                \<lparr>dap := dap (fold (\<lambda>b th'. fst (updateCustomBreakpoint (customBreakpointCatalog e) th' b True))
                   (customBreakpoints w) th3) @ [DapThread ''started'' t]\<rparr>)"
proof -
  define th2 where "th2 = (if timeout_scriptPaused e \<noteq> 0
       then (th\<lparr>cdp := cdp th @ [RuntimeEnable, DebuggerEnable, DebuggerSetAsyncCallStackDepth 32]\<rparr>)
              \<lparr>cdp := cdp (th\<lparr>cdp := cdp th @ [RuntimeEnable, DebuggerEnable, DebuggerSetAsyncCallStackDepth 32]\<rparr>)
                 @ [DebuggerSetInstrumentationBreakpoint ''beforeScriptWithSourceMapExecution'']\<rparr>
       else th\<lparr>cdp := cdp th @ [RuntimeEnable, DebuggerEnable, DebuggerSetAsyncCallStackDepth 32]\<rparr>)"
  define th3 where "th3 = updatePauseOnExceptionsState (pauseOnExceptionsState w) th2"
  have "supportsCustomBreakpoints th3 = supportsCustomBreakpoints th"
    by (simp add: th3_def th2_def updatePauseOnExceptionsState_def)
  moreover have "heap (initialize e w t) t =
          Some ((fold (\<lambda>b th'. fst (updateCustomBreakpoint (customBreakpointCatalog e) th' b True))
                   (customBreakpoints w) th3)
                \<lparr>dap := dap (fold (\<lambda>b th'. fst (updateCustomBreakpoint (customBreakpointCatalog e) th' b True))
                   (customBreakpoints w) th3) @ [DapThread ''started'' t]\<rparr>)"
    unfolding initialize_def Let_def th3_def th2_def using assms by simp
  ultimately show ?thesis by blast
qed

text \<open>
  Claim C8. Take any manager, enable any ids (possibly none), then create a thread and
  initialize it. For every id that is then in the manager's set of enabled custom
  breakpoints, the initialization calls \<open>updateCustomBreakpoint(id, true)\<close> and the call
  reports \<open>true\<close>; when the thread supports custom breakpoints and the catalog knows
  the id, the catalog entry is applied to the target with \<open>enabled = true\<close>.
\<close>

theorem initialize_applies_enabled_breakpoints:
  assumes "bid \<in> set (customBreakpoints w) \<union> set ids"
    and "createThread (enableCustomBreakpoints (customBreakpointCatalog e) w ids) parent cfg = (w', t)"
  shows "\<exists>th'. heap (initialize e w' t) t = Some th'
      \<and> (bid, True, True) \<in> set (updateCalls th')
      \<and> (cfg_supportsCustomBreakpoints cfg = Some True \<and> customBreakpointCatalog e bid \<noteq> None
           \<longrightarrow> CustomBreakpointApply bid True \<in> set (cdp th'))"
proof -
  from createThread_heap [OF assms(2)] obtain th where
    th: "heap w' t = Some th"
      "supportsCustomBreakpoints th = (cfg_supportsCustomBreakpoints cfg = Some True)"
      "customBreakpoints w' = customBreakpoints (enableCustomBreakpoints (customBreakpointCatalog e) w ids)"
    by blast
  have mem: "bid \<in> set (customBreakpoints w')"
    using assms(1) th(3) by (simp add: enableCustomBreakpoints_set)
  from initialize_heap [OF th(1), of e] obtain th3 where
    th3: "supportsCustomBreakpoints th3 = supportsCustomBreakpoints th"
      "heap (initialize e w' t) t =
          Some ((fold (\<lambda>b th'. fst (updateCustomBreakpoint (customBreakpointCatalog e) th' b True))
                   (customBreakpoints w') th3)
                \<lparr>dap := dap (fold (\<lambda>b th'. fst (updateCustomBreakpoint (customBreakpointCatalog e) th' b True))
                   (customBreakpoints w') th3) @ [DapThread ''started'' t]\<rparr>)"
    by blast
  from fold_update_calls [OF mem, of "customBreakpointCatalog e" th3]
  show ?thesis
    using th(2) th3 by simp
qed

theorem initialize_applies_enabled_breakpoints_witness:
  "(\<exists>th'. heap (initialize
        \<lparr>customBreakpointCatalog = (\<lambda>i. if i = ''instrumentation:setTimeout'' then Some (\<lambda>d. (''s'', ''l'')) else None),
         scriptUrlToUrl = (\<lambda>u. u), completeUrl = (\<lambda>b u. Some u),
         timeout_scriptPaused = 1000, timeout_output = 1000\<rparr>
        (fst (createThread (enableCustomBreakpoints
           (\<lambda>i. if i = ''instrumentation:setTimeout'' then Some (\<lambda>d. (''s'', ''l'')) else None)
           new_world [''instrumentation:setTimeout'']) None \<lparr>cfg_supportsCustomBreakpoints = Some True\<rparr>)) 1) 1
      = Some th'
    \<and> (''instrumentation:setTimeout'', True, True) \<in> set (updateCalls th')
    \<and> CustomBreakpointApply ''instrumentation:setTimeout'' True \<in> set (cdp th'))"
proof -
  let ?cat = "\<lambda>i. if i = ''instrumentation:setTimeout'' then Some (\<lambda>d::js_object. (''s'', ''l'')) else None"
  let ?e = "\<lparr>customBreakpointCatalog = ?cat,
         scriptUrlToUrl = (\<lambda>u. u), completeUrl = (\<lambda>b u. Some u),
         timeout_scriptPaused = 1000, timeout_output = 1000\<rparr>"
  have c: "createThread (enableCustomBreakpoints (customBreakpointCatalog ?e) new_world [''instrumentation:setTimeout''])
      None \<lparr>cfg_supportsCustomBreakpoints = Some True\<rparr>
    = (fst (createThread (enableCustomBreakpoints ?cat new_world [''instrumentation:setTimeout''])
      None \<lparr>cfg_supportsCustomBreakpoints = Some True\<rparr>), 1)"
    by (simp add: createThread_def new_thread_def enableCustomBreakpoints_def updateAllThreads_def new_world_def Let_def)
  have m: "''instrumentation:setTimeout'' \<in> set (customBreakpoints new_world) \<union> set [''instrumentation:setTimeout'']"
    by simp
  show ?thesis
    using initialize_applies_enabled_breakpoints [OF m c] by simp
qed

section \<open>Properties of pausing\<close>

text \<open>
  Claim C9, as amended. For a paused event whose raw cause is none of the enumerated
  ones, \<open>_createPausedDetails\<close> returns reason \<open>breakpoint\<close> and description
  \<open>Paused on breakpoint\<close> when the event lists a breakpoint that was hit, and reason
  \<open>step\<close> and description \<open>Paused\<close> otherwise.
\<close>

theorem createPausedDetails_default:
  assumes "event_reason event \<notin> set [''assert'', ''debugCommand'', ''DOM'', ''EventListener'',
      ''exception'', ''promiseRejection'', ''instrumentation'', ''XHR'', ''OOM'']"
  shows "(reason (createPausedDetails cat event), description (createPausedDetails cat event)) =
     (if (case hitBreakpoints event of None \<Rightarrow> False | Some hs \<Rightarrow> hs \<noteq> [])
      then (''breakpoint'', ''Paused on breakpoint'') else (''step'', ''Paused''))"
  using assms by (simp add: createPausedDetails_def localize_def Let_def)

theorem createPausedDetails_default_witness:
  "(reason (createPausedDetails (\<lambda>i. None)
       \<lparr>event_reason = ''other'', event_data = None, hitBreakpoints = None, callFrames = []\<rparr>),
    description (createPausedDetails (\<lambda>i. None)
       \<lparr>event_reason = ''other'', event_data = None, hitBreakpoints = None, callFrames = []\<rparr>))
   = (''step'', ''Paused'')"
  using createPausedDetails_default [of
      "\<lparr>event_reason = ''other'', event_data = None, hitBreakpoints = None, callFrames = []\<rparr>"
      "\<lambda>i. None"]
  by simp

text \<open>
  The claim as stated fails for a plain breakpoint hit: cause \<open>other\<close> with one hit
  breakpoint gives reason \<open>breakpoint\<close>, not \<open>step\<close>.
\<close>

theorem createPausedDetails_breakpoint_hit:
  "reason (createPausedDetails (\<lambda>i. None)
       \<lparr>event_reason = ''other'', event_data = None, hitBreakpoints = Some [''1:10:0''],
        callFrames = []\<rparr>) = ''breakpoint''
   \<and> description (createPausedDetails (\<lambda>i. None)
       \<lparr>event_reason = ''other'', event_data = None, hitBreakpoints = Some [''1:10:0''],
        callFrames = []\<rparr>) = ''Paused on breakpoint''
   \<and> \<not> (reason (createPausedDetails (\<lambda>i. None)
       \<lparr>event_reason = ''other'', event_data = None, hitBreakpoints = Some [''1:10:0''],
        callFrames = []\<rparr>) = ''step'')"
  by (simp add: createPausedDetails_def localize_def)

text \<open>
  Claim C6, as amended. For a paused event with reason \<open>instrumentation\<close> that carries
  a script id, the thread reports nothing to the client, keeps its pause state, and
  sends exactly one \<open>Debugger.resume\<close>, on every path on which the awaited promises do
  not fail: whether the script is unknown, the wait for the source-map sources resolves
  with sources or with none, or the timer fires first, and with a registered handler
  that fulfils or with none.
\<close>

theorem gated_pause_resumes_once:
  assumes "event_reason event = ''instrumentation''"
    and "prop_truthy (event_data event) ''scriptId''"
    and "map_of (scripts th) (the (map_of (the (event_data event)) ''scriptId'')) \<noteq> None
         \<longrightarrow> race \<noteq> WaitRejected \<and> (registered \<longrightarrow> handler = HandlerFulfilled)"
  shows "dap (onPaused cat registered race handler tid th event) = dap th
       \<and> cdp (onPaused cat registered race handler tid th event) = cdp th @ [DebuggerResume]
       \<and> pausedDetails (onPaused cat registered race handler tid th event) = pausedDetails th"
  using assms
  by (auto simp: onPaused_def handleSourceMapPause_def Let_def
           split: option.splits race_outcome.splits handler_outcome.splits)

theorem gated_pause_resumes_once_witness:
  "cdp (onPaused (\<lambda>i. None) True WaitRejected HandlerRejected 1
          (new_thread None \<lparr>cfg_supportsCustomBreakpoints = None\<rparr>)
          \<lparr>event_reason = ''instrumentation'', event_data = Some [(''scriptId'', ''7'')],
           hitBreakpoints = None, callFrames = []\<rparr>) = [DebuggerResume]
   \<and> dap (onPaused (\<lambda>i. None) True WaitRejected HandlerRejected 1
          (new_thread None \<lparr>cfg_supportsCustomBreakpoints = None\<rparr>)
          \<lparr>event_reason = ''instrumentation'', event_data = Some [(''scriptId'', ''7'')],
           hitBreakpoints = None, callFrames = []\<rparr>) = []
   \<and> cdp (onPaused (\<lambda>i. None) True TimerFired HandlerFulfilled 1
          ((new_thread None \<lparr>cfg_supportsCustomBreakpoints = None\<rparr>)
             \<lparr>scripts := [(''7'', \<lparr>scriptId = ''7'', source = 1, thread = 1, oid = 2\<rparr>)]\<rparr>)
          \<lparr>event_reason = ''instrumentation'', event_data = Some [(''scriptId'', ''7'')],
           hitBreakpoints = None, callFrames = []\<rparr>) = [DebuggerResume]
   \<and> dap (onPaused (\<lambda>i. None) True TimerFired HandlerFulfilled 1
          ((new_thread None \<lparr>cfg_supportsCustomBreakpoints = None\<rparr>)
             \<lparr>scripts := [(''7'', \<lparr>scriptId = ''7'', source = 1, thread = 1, oid = 2\<rparr>)]\<rparr>)
          \<lparr>event_reason = ''instrumentation'', event_data = Some [(''scriptId'', ''7'')],
           hitBreakpoints = None, callFrames = []\<rparr>) = []"
proof -
  let ?ev = "\<lparr>event_reason = ''instrumentation'', event_data = Some [(''scriptId'', ''7'')],
           hitBreakpoints = None, callFrames = []\<rparr>"
  let ?th0 = "new_thread None \<lparr>cfg_supportsCustomBreakpoints = None\<rparr>"
  let ?th7 = "?th0\<lparr>scripts := [(''7'', \<lparr>scriptId = ''7'', source = 1, thread = 1, oid = 2\<rparr>)]\<rparr>"
  have r: "event_reason ?ev = ''instrumentation''" by simp
  have p: "prop_truthy (event_data ?ev) ''scriptId''" by (simp add: prop_truthy_def)
  have u: "map_of (scripts ?th0) (the (map_of (the (event_data ?ev)) ''scriptId'')) \<noteq> None
         \<longrightarrow> WaitRejected \<noteq> WaitRejected \<and> (True \<longrightarrow> HandlerRejected = HandlerFulfilled)"
    by (simp add: new_thread_def)
  have k: "map_of (scripts ?th7) (the (map_of (the (event_data ?ev)) ''scriptId'')) \<noteq> None
         \<longrightarrow> TimerFired \<noteq> WaitRejected \<and> (True \<longrightarrow> HandlerFulfilled = HandlerFulfilled)"
    by simp
  show ?thesis
    using gated_pause_resumes_once [OF r p u, of "\<lambda>i. None" 1]
      gated_pause_resumes_once [OF r p k, of "\<lambda>i. None" 1]
    by (simp add: new_thread_def)
qed

text \<open>
  The claim as stated fails when an awaited promise rejects: with a known script and a
  registered handler that rejects, or with a wait that rejects, the function ends
  before its last statement and no \<open>Debugger.resume\<close> is sent.
\<close>

theorem gated_pause_without_resume:
  "cdp (onPaused (\<lambda>i. None) True (WaitResolved [3]) HandlerRejected 1
          ((new_thread None \<lparr>cfg_supportsCustomBreakpoints = None\<rparr>)
             \<lparr>scripts := [(''7'', \<lparr>scriptId = ''7'', source = 1, thread = 1, oid = 2\<rparr>)]\<rparr>)
          \<lparr>event_reason = ''instrumentation'', event_data = Some [(''scriptId'', ''7'')],
           hitBreakpoints = None, callFrames = []\<rparr>) = []
   \<and> cdp (onPaused (\<lambda>i. None) False WaitRejected HandlerFulfilled 1
          ((new_thread None \<lparr>cfg_supportsCustomBreakpoints = None\<rparr>)
             \<lparr>scripts := [(''7'', \<lparr>scriptId = ''7'', source = 1, thread = 1, oid = 2\<rparr>)]\<rparr>)
          \<lparr>event_reason = ''instrumentation'', event_data = Some [(''scriptId'', ''7'')],
           hitBreakpoints = None, callFrames = []\<rparr>) = []"
  by (simp add: onPaused_def handleSourceMapPause_def prop_truthy_def new_thread_def)

section \<open>Properties of disposal\<close>

lemma indexOf_nonneg: "x \<in> set xs \<Longrightarrow> 0 \<le> indexOf xs x"
  by (induction xs) (auto simp: Let_def)

lemma indexOf_neg: "x \<notin> set xs \<Longrightarrow> indexOf xs x = - 1"
  by (induction xs) (auto simp: Let_def)

lemma indexOf_bounds: "x \<in> set xs \<Longrightarrow> 0 \<le> indexOf xs x \<and> indexOf xs x < int (length xs)"
  by (induction xs) (auto simp: Let_def)

lemma splice_indexOf: "x \<in> set xs \<Longrightarrow> array_splice xs (indexOf xs x) 1 = remove1 x xs"
proof (induction xs)
  case Nil
  then show ?case by simp
next
  case (Cons y ys)
  show ?case
  proof (cases "y = x")
    case True
    then show ?thesis by (simp add: array_splice_def)
  next
    case False
    with Cons.prems have mem: "x \<in> set ys" by simp
    from indexOf_bounds [OF mem] have b: "0 \<le> indexOf ys x" "indexOf ys x < int (length ys)"
      by simp_all
    have ih: "array_splice ys (indexOf ys x) 1 = remove1 x ys" using Cons.IH mem by simp
    have n: "nat (indexOf ys x + 1) = Suc (nat (indexOf ys x))" using b by simp
    show ?thesis
      using False b ih by (simp add: array_splice_def Let_def n min_def)
  qed
qed

lemma removeScript_heap: "heap (removeScript sc w) = heap w"
  by (simp add: removeScript_def removeSource_def Let_def split: option.splits)

lemma fold_removeScript_heap: "heap (fold removeScript scs w) = heap w"
  by (induction scs arbitrary: w) (simp_all add: removeScript_heap)

lemma removeAllScripts_heap_other: "p \<noteq> t \<Longrightarrow> heap (removeAllScripts w t) p = heap w p"
  by (simp add: removeAllScripts_def fold_removeScript_heap split: option.splits)

lemma removeAllScripts_heap_None: "heap w t = None \<Longrightarrow> heap (removeAllScripts w t) t = None"
  by (simp add: removeAllScripts_def)

lemma executionContextsCleared_heap_other:
  "p \<noteq> t \<Longrightarrow> heap (executionContextsCleared w t) p = heap w p"
  by (simp add: executionContextsCleared_def Let_def removeAllScripts_heap_other
           split: option.splits)

lemma removeThread_heap: "heap (removeThread t w) = heap w"
  by (simp add: removeThread_def)

lemma Thread_dispose_heap_parent:
  assumes "heap w t = Some th" and "parentThread th = Some p" and "p \<noteq> t"
  shows "heap (Thread_dispose w t) p = heap (handOverChildren w t p) p"
  using assms
  by (simp add: Thread_dispose_def Let_def executionContextsCleared_heap_other
        removeThread_heap removeAllScripts_heap_other split: option.splits)

lemma handOverChildren_heap_parent:
  assumes "heap w t = Some th" and "heap w p = Some pt" and "p \<noteq> t"
  shows "heap (handOverChildren w t p) p =
     Some (pt\<lparr>childThreads := array_splice (childThreads pt) (indexOf (childThreads pt) t) 1
                 @ childThreads th\<rparr>)"
  using assms by (simp add: handOverChildren_def Let_def)

text \<open>
  Claim C4, as amended. When a thread \<open>t\<close> with parent \<open>p\<close> is disposed, \<open>t\<close> is taken
  out of the child list of \<open>p\<close> and the children of \<open>t\<close> are appended to the end of
  that list, in their order; so every former child of \<open>t\<close> is in the child list of
  \<open>p\<close>.
\<close>

theorem dispose_appends_children_to_parent:
  assumes "heap w t = Some th" and "parentThread th = Some p" and "heap w p = Some pt"
    and "p \<noteq> t" and "t \<in> set (childThreads pt)"
  shows "\<exists>pt'. heap (Thread_dispose w t) p = Some pt'
       \<and> childThreads pt' = remove1 t (childThreads pt) @ childThreads th"
  using Thread_dispose_heap_parent [OF assms(1,2,4)]
    handOverChildren_heap_parent [OF assms(1,3,4)] splice_indexOf [OF assms(5)]
  by simp

lemma lastThreadId_createThread:
  "lastThreadId (fst (createThread w parent c)) = lastThreadId w + 1"
  by (simp add: createThread_def Let_def)

lemma heap_createThread:
  "heap (fst (createThread w parent c)) q =
     (if q = lastThreadId w + 1 then Some (new_thread parent c)
      else if parent = Some q
        then map_option (\<lambda>pt. pt\<lparr>childThreads := childThreads pt @ [lastThreadId w + 1]\<rparr>) (heap w q)
        else heap w q)"
  by (cases parent) (auto simp: createThread_def Let_def split: option.splits)

lemma childThreads_new_thread: "childThreads (new_thread parent c) = []"
  by (simp add: new_thread_def)

lemma family_heap:
  "heap family 1 = Some ((new_thread None \<lparr>cfg_supportsCustomBreakpoints = None\<rparr>)\<lparr>childThreads := [2, 3]\<rparr>)"
  "heap family 2 = Some ((new_thread (Some 1) \<lparr>cfg_supportsCustomBreakpoints = None\<rparr>)\<lparr>childThreads := [4, 5]\<rparr>)"
  by (simp_all add: family_def Let_def lastThreadId_createThread heap_createThread new_world_def
      childThreads_new_thread eval_nat_numeral)

text \<open>
  The claim as stated fails in the position: thread 2 stands first among the children
  of thread 1, and after its disposal its children 4 and 5 stand last, behind thread 3.
\<close>

theorem dispose_children_position:
  "childThreads (the (heap family 1)) = [2, 3]
   \<and> childThreads (the (heap family 2)) = [4, 5]
   \<and> childThreads (the (heap (Thread_dispose family 2) 1)) = [3, 4, 5]
   \<and> childThreads (the (heap (Thread_dispose family 2) 1)) \<noteq> [4, 5, 3]"
proof -
  have n: "(1::nat) \<noteq> 2" by simp
  have "heap (Thread_dispose family 2) 1 = heap (handOverChildren family 2 1) 1"
    by (rule Thread_dispose_heap_parent [OF family_heap(2)]) (simp_all add: new_thread_def)
  then have "childThreads (the (heap (Thread_dispose family 2) 1)) = [3, 4, 5]"
    using handOverChildren_heap_parent [OF family_heap(2) family_heap(1) n]
    by (simp add: array_splice_def Let_def)
  moreover have "childThreads (the (heap family 1)) = [2, 3]"
    using family_heap(1) by simp
  moreover have "childThreads (the (heap family 2)) = [4, 5]"
    using family_heap(2) by simp
  ultimately show ?thesis by simp
qed

theorem dispose_appends_children_to_parent_witness:
  "\<exists>pt'. heap (Thread_dispose family 2) 1 = Some pt' \<and> childThreads pt' = [3, 4, 5]"
proof -
  have p: "parentThread ((new_thread (Some 1) \<lparr>cfg_supportsCustomBreakpoints = None\<rparr>)\<lparr>childThreads := [4, 5]\<rparr>) = Some 1"
    by (simp add: new_thread_def)
  have n: "(1::nat) \<noteq> 2" by simp
  have m: "(2::nat) \<in> set (childThreads ((new_thread None \<lparr>cfg_supportsCustomBreakpoints = None\<rparr>)\<lparr>childThreads := [2, 3]\<rparr>))"
    by simp
  show ?thesis
    using dispose_appends_children_to_parent [OF family_heap(2) p family_heap(1) n m]
    by simp
qed

section \<open>Properties of scripts and sources\<close>

lemma map_set_new:
  "k \<notin> fst ` set ps \<Longrightarrow> map_set k v ps = ps @ [(k, v)]"
  by (induction ps) auto

lemma removeScript_at:
  assumes "sources w (source sc) = Some src" and "kScripts src = Some st"
  shows "removeScript sc w =
     (if removeAll sc st = []
      then removeSource (source sc)
             (w\<lparr>sources := (sources w)(source sc \<mapsto> src\<lparr>kScripts := Some []\<rparr>)\<rparr>)
      else w\<lparr>sources := (sources w)(source sc \<mapsto> src\<lparr>kScripts := Some (removeAll sc st)\<rparr>)\<rparr>)"
  using assms by (simp add: removeScript_def Let_def)

lemma removeAll_drop:
  assumes "distinct scs" and "k < length scs"
  shows "removeAll (scs ! k) (drop k scs) = drop (Suc k) scs"
proof -
  have d: "drop k scs = scs ! k # drop (Suc k) scs"
    using assms(2) by (simp add: Cons_nth_drop_Suc)
  have "distinct (drop k scs)" using assms(1) by simp
  then have "scs ! k \<notin> set (drop (Suc k) scs)" using d by simp
  then show ?thesis using d by simp
qed

lemma removeScript_loop:
  assumes "distinct scs" and "\<forall>s\<in>set scs. source s = sref"
    and "sources w sref = Some src" and "kScripts src = Some scs"
  shows "k < length scs \<Longrightarrow>
     sources (fold removeScript (take k scs) w) sref = Some (src\<lparr>kScripts := Some (drop k scs)\<rparr>)
     \<and> removedSources (fold removeScript (take k scs) w) = removedSources w
     \<and> sourceByUrl (fold removeScript (take k scs) w) = sourceByUrl w"
proof (induction k)
  case 0
  show ?case using assms(3,4) by simp
next
  case (Suc k)
  then have k: "k < length scs" by simp
  let ?w = "fold removeScript (take k scs) w"
  let ?src = "src\<lparr>kScripts := Some (drop k scs)\<rparr>"
  from Suc.IH [OF k] have ih: "sources ?w sref = Some ?src"
    "removedSources ?w = removedSources w" "sourceByUrl ?w = sourceByUrl w"
    by simp_all
  have s: "source (scs ! k) = sref" using assms(2) k by simp
  have f: "fold removeScript (take (Suc k) scs) w = removeScript (scs ! k) ?w"
    using k by (simp add: take_Suc_conv_app_nth)
  have ne: "drop (Suc k) scs \<noteq> []" using Suc.prems by simp
  have "removeScript (scs ! k) ?w =
      ?w\<lparr>sources := (sources ?w)(sref \<mapsto> ?src\<lparr>kScripts := Some (drop (Suc k) scs)\<rparr>)\<rparr>"
    using removeScript_at [of ?w "scs ! k" ?src "drop k scs"] ih(1) s ne
      removeAll_drop [OF assms(1) k]
    by simp
  then show ?case using f ih by simp
qed

lemma removeScript_all:
  assumes "distinct scs" and "\<forall>s\<in>set scs. source s = sref"
    and "sources w sref = Some src" and "kScripts src = Some scs" and "scs \<noteq> []"
  shows "removedSources (fold removeScript scs w) = removedSources w @ [sref]"
proof -
  define k where "k = length scs - 1"
  have k: "k < length scs" "Suc k = length scs" using assms(5) by (simp_all add: k_def)
  let ?w = "fold removeScript (take k scs) w"
  let ?src = "src\<lparr>kScripts := Some (drop k scs)\<rparr>"
  from removeScript_loop [OF assms(1-4) k(1)] have ih: "sources ?w sref = Some ?src"
    "removedSources ?w = removedSources w"
    by simp_all
  have s: "source (scs ! k) = sref" using assms(2) k(1) by simp
  have "take (Suc k) scs = scs" using k(2) by simp
  then have f: "fold removeScript scs w = removeScript (scs ! k) ?w"
    using k(1) take_Suc_conv_app_nth [of k scs] by (metis fold_append fold_simps(1,2) comp_apply)
  have e: "removeAll (scs ! k) (drop k scs) = []"
    using removeAll_drop [OF assms(1) k(1)] k(2) by simp
  have "removeScript (scs ! k) ?w =
      removeSource sref (?w\<lparr>sources := (sources ?w)(sref \<mapsto> ?src\<lparr>kScripts := Some []\<rparr>)\<rparr>)"
    using removeScript_at [of ?w "scs ! k" ?src "drop k scs"] ih(1) s e by simp
  then show ?thesis using f ih(2) by (simp add: removeSource_def)
qed


lemma onScriptParsed_next:
  assumes "shares w t sref u scs rs" and "u \<noteq> []"
    and "scriptUrlToUrl e (parsed_url ev) = u"
    and "parsed_scriptId ev \<notin> scriptId ` set scs"
  shows "shares (onScriptParsed e w t ev) t sref u
     (scs @ [\<lparr>scriptId = parsed_scriptId ev, source = sref, thread = t,
              oid = lastObjectId w + 1\<rparr>]) rs"
proof -
  from assms(1) obtain th src where
    h: "heap w t = Some th" "scripts th = map (\<lambda>s. (scriptId s, s)) scs"
      "\<forall>s\<in>set scs. source s = sref" "sources w sref = Some src" "kScripts src = Some scs"
      "sourceByUrl w u = Some sref" "removedSources w = rs"
    unfolding shares_def by blast
  let ?sc = "\<lparr>scriptId = parsed_scriptId ev, source = sref, thread = t, oid = lastObjectId w + 1\<rparr>"
  have ms: "map_set (parsed_scriptId ev) v (map (\<lambda>s. (scriptId s, s)) scs)
      = map (\<lambda>s. (scriptId s, s)) scs @ [(parsed_scriptId ev, v)]" for v
    using assms(4) by (intro map_set_new) (auto simp: image_iff)
  have notin: "?sc \<notin> set scs"
    using assms(4) by (auto simp: image_iff)
  show ?thesis
    unfolding shares_def
    using h assms(2,3) notin
    by (simp add: onScriptParsed_def Let_def ms set_add_def)
qed


lemma onScriptParsed_first:
  assumes "heap w t = Some th" and "scripts th = []" and "u \<noteq> []"
    and "sourceByUrl w u = None" and "scriptUrlToUrl e (parsed_url ev) = u"
  shows "shares (onScriptParsed e w t ev) t (lastObjectId w + 1) u
     [\<lparr>scriptId = parsed_scriptId ev, source = lastObjectId w + 1, thread = t,
       oid = lastObjectId w + 2\<rparr>] (removedSources w)"
  unfolding shares_def using assms
  by (simp add: onScriptParsed_def Let_def addSource_def set_add_def)

lemma parse_all:
  assumes "u \<noteq> []" and "\<forall>ev\<in>set evs. scriptUrlToUrl e (parsed_url ev) = u"
  shows "shares w t sref u scs rs \<Longrightarrow> distinct (map scriptId scs @ map parsed_scriptId evs) \<Longrightarrow>
     \<exists>scs'. shares (fold (\<lambda>ev w'. onScriptParsed e w' t ev) evs w) t sref u (scs @ scs') rs
        \<and> map scriptId scs' = map parsed_scriptId evs"
  using assms(2)
proof (induction evs arbitrary: w scs)
  case Nil
  then show ?case by simp
next
  case (Cons ev evs)
  let ?sc = "\<lparr>scriptId = parsed_scriptId ev, source = sref, thread = t, oid = lastObjectId w + 1\<rparr>"
  have fresh: "parsed_scriptId ev \<notin> scriptId ` set scs"
    using Cons.prems(2) by auto
  have u: "scriptUrlToUrl e (parsed_url ev) = u" using Cons.prems(3) by simp
  have step: "shares (onScriptParsed e w t ev) t sref u (scs @ [?sc]) rs"
    by (rule onScriptParsed_next [OF Cons.prems(1) assms(1) u fresh])
  have d: "distinct (map scriptId (scs @ [?sc]) @ map parsed_scriptId evs)"
    using Cons.prems(2) by auto
  have r: "\<forall>ev\<in>set evs. scriptUrlToUrl e (parsed_url ev) = u" using Cons.prems(3) by simp
  from Cons.IH [OF step d r] obtain scs' where
    "shares (fold (\<lambda>ev w'. onScriptParsed e w' t ev) evs (onScriptParsed e w t ev)) t sref u
       ((scs @ [?sc]) @ scs') rs" "map scriptId scs' = map parsed_scriptId evs"
    by blast
  then have "shares (fold (\<lambda>ev w'. onScriptParsed e w' t ev) (ev # evs) w) t sref u
       (scs @ (?sc # scs')) rs \<and> map scriptId (?sc # scs') = map parsed_scriptId (ev # evs)"
    by simp
  then show ?case by blast
qed

lemma parse_from_empty:
  assumes "heap w t = Some th" and "scripts th = []" and "u \<noteq> []"
    and "sourceByUrl w u = None" and "evs \<noteq> []"
    and "distinct (map parsed_scriptId evs)"
    and "\<forall>ev\<in>set evs. scriptUrlToUrl e (parsed_url ev) = u"
  shows "\<exists>scs. shares (fold (\<lambda>ev w'. onScriptParsed e w' t ev) evs w) t (lastObjectId w + 1) u scs
       (removedSources w) \<and> map scriptId scs = map parsed_scriptId evs"
proof -
  from assms(5) obtain ev rest where evs: "evs = ev # rest" by (cases evs) auto
  let ?sc = "\<lparr>scriptId = parsed_scriptId ev, source = lastObjectId w + 1, thread = t,
       oid = lastObjectId w + 2\<rparr>"
  have u: "scriptUrlToUrl e (parsed_url ev) = u" using assms(7) evs by simp
  have first: "shares (onScriptParsed e w t ev) t (lastObjectId w + 1) u [?sc] (removedSources w)"
    by (rule onScriptParsed_first [OF assms(1-4) u])
  have d: "distinct (map scriptId [?sc] @ map parsed_scriptId rest)"
    using assms(6) evs by simp
  have r: "\<forall>ev\<in>set rest. scriptUrlToUrl e (parsed_url ev) = u" using assms(7) evs by simp
  from parse_all [OF assms(3) r first d] obtain scs' where
    "shares (fold (\<lambda>ev w'. onScriptParsed e w' t ev) rest (onScriptParsed e w t ev)) t
       (lastObjectId w + 1) u ([?sc] @ scs') (removedSources w)"
    "map scriptId scs' = map parsed_scriptId rest"
    by blast
  then have "shares (fold (\<lambda>ev w'. onScriptParsed e w' t ev) evs w) t (lastObjectId w + 1) u
       (?sc # scs') (removedSources w) \<and> map scriptId (?sc # scs') = map parsed_scriptId evs"
    using evs by simp
  then show ?thesis by blast
qed

lemma snd_script_entries: "map snd (map (\<lambda>s. (scriptId s, s)) scs) = scs"
  by (induction scs) simp_all

lemma snd_script_entries': "map (snd \<circ> (\<lambda>s. (scriptId s, s))) scs = scs"
  by (induction scs) simp_all

lemma shares_removal:
  assumes "shares w t sref u scs rs" and "distinct scs" and "scs \<noteq> []"
  shows "(\<forall>k<length scs. removedSources (removeScripts k w t) = rs
            \<and> sourceByUrl (removeScripts k w t) u = Some sref)
       \<and> removedSources (removeAllScripts w t) = rs @ [sref]"
proof -
  from assms(1) obtain th src where
    h: "heap w t = Some th" "scripts th = map (\<lambda>s. (scriptId s, s)) scs"
      "\<forall>s\<in>set scs. source s = sref" "sources w sref = Some src" "kScripts src = Some scs"
      "sourceByUrl w u = Some sref" "removedSources w = rs"
    unfolding shares_def by blast
  let ?w = "w\<lparr>heap := (heap w)(t \<mapsto> th\<lparr>scripts := []\<rparr>)\<rparr>"
  have s: "sources ?w sref = Some src" using h(4) by simp
  have a: "removeScripts k w t = fold removeScript (take k scs) ?w" for k
    using h(1,2) by (simp add: removeScripts_def snd_script_entries')
  have b: "removeAllScripts w t = fold removeScript scs ?w"
    using h(1,2) by (simp add: removeAllScripts_def snd_script_entries')
  have "removedSources (removeScripts k w t) = rs
      \<and> sourceByUrl (removeScripts k w t) u = Some sref" if "k < length scs" for k
    using removeScript_loop [OF assms(2) h(3) s h(5) that] h(6,7) by (simp add: a)
  moreover have "removedSources (removeAllScripts w t) = rs @ [sref]"
    using removeScript_all [OF assms(2) h(3) s h(5) assms(3)] h(7) by (simp add: b)
  ultimately show ?thesis by blast
qed

text \<open>
  Claim C2. A thread without scripts receives script-parsed events with distinct
  script ids whose URLs all resolve to one non-empty URL that has no source yet. Then
  all its scripts share one source, and when \<open>_removeAllScripts\<close> removes them one at
  a time, \<open>removeSource\<close> is not called and the source stays registered as long as
  fewer than all of them are removed; over the whole loop \<open>removeSource\<close> is called
  once, for that source.
\<close>

theorem shared_source_removed_with_last_script:
  assumes "heap w t = Some th" and "scripts th = []" and "u \<noteq> []"
    and "sourceByUrl w u = None" and "evs \<noteq> []"
    and "distinct (map parsed_scriptId evs)"
    and "\<forall>ev\<in>set evs. scriptUrlToUrl e (parsed_url ev) = u"
    and "w' = fold (\<lambda>ev w1. onScriptParsed e w1 t ev) evs w"
  shows "\<exists>th' sref. heap w' t = Some th'
       \<and> map fst (scripts th') = map parsed_scriptId evs
       \<and> (\<forall>sc\<in>set (map snd (scripts th')). source sc = sref)
       \<and> (\<forall>k<length evs. removedSources (removeScripts k w' t) = removedSources w
                          \<and> sourceByUrl (removeScripts k w' t) u = Some sref)
       \<and> removedSources (removeAllScripts w' t) = removedSources w @ [sref]"
proof -
  from parse_from_empty [OF assms(1-7)] obtain scs where
    sh: "shares w' t (lastObjectId w + 1) u scs (removedSources w)"
    and ids: "map scriptId scs = map parsed_scriptId evs"
    using assms(8) by blast
  have d: "distinct scs" using ids assms(6) by (metis distinct_map)
  have n: "scs \<noteq> []" using ids assms(5) by auto
  have l: "length scs = length evs" using ids by (metis length_map)
  from sh obtain th' where
    th': "heap w' t = Some th'" "scripts th' = map (\<lambda>s. (scriptId s, s)) scs"
      "\<forall>s\<in>set scs. source s = lastObjectId w + 1"
    unfolding shares_def by blast
  have f: "map fst (scripts th') = map parsed_scriptId evs"
    using th'(2) ids by (simp add: comp_def)
  have s: "\<forall>sc\<in>set (map snd (scripts th')). source sc = lastObjectId w + 1"
    using th'(2,3) by (simp add: snd_script_entries')
  from shares_removal [OF sh d n] l th'(1) f s show ?thesis by auto
qed

lemma one_thread_facts:
  "heap one_thread 1 = Some (new_thread None \<lparr>cfg_supportsCustomBreakpoints = None\<rparr>)"
  "sourceByUrl one_thread u = None"
  "removedSources one_thread = []"
  by (simp_all add: one_thread_def createThread_def new_world_def Let_def)

theorem shared_source_removed_with_last_script_witness:
  "\<exists>th' sref.
      heap (fold (\<lambda>ev w1. onScriptParsed plain_env w1 1 ev)
              [parsed ''10'' ''app.js'', parsed ''11'' ''app.js''] one_thread) 1 = Some th'
    \<and> map fst (scripts th') = [''10'', ''11'']
    \<and> removedSources (removeScripts 1
         (fold (\<lambda>ev w1. onScriptParsed plain_env w1 1 ev)
              [parsed ''10'' ''app.js'', parsed ''11'' ''app.js''] one_thread) 1) = []
    \<and> removedSources (removeAllScripts
         (fold (\<lambda>ev w1. onScriptParsed plain_env w1 1 ev)
              [parsed ''10'' ''app.js'', parsed ''11'' ''app.js''] one_thread) 1) = [sref]"
proof -
  let ?evs = "[parsed ''10'' ''app.js'', parsed ''11'' ''app.js'']"
  have a: "scripts (new_thread None \<lparr>cfg_supportsCustomBreakpoints = None\<rparr>) = []"
    by (simp add: new_thread_def)
  have b: "''app.js'' \<noteq> []" by simp
  have c: "?evs \<noteq> []" by simp
  have d: "distinct (map parsed_scriptId ?evs)" by (simp add: parsed_def)
  have f: "\<forall>ev\<in>set ?evs. scriptUrlToUrl plain_env (parsed_url ev) = ''app.js''"
    by (simp add: parsed_def plain_env_def)
  from shared_source_removed_with_last_script
    [OF one_thread_facts(1) a b one_thread_facts(2) c d f refl]
  obtain th' sref where
    r: "heap (fold (\<lambda>ev w1. onScriptParsed plain_env w1 1 ev) ?evs one_thread) 1 = Some th'"
      "map fst (scripts th') = map parsed_scriptId ?evs"
      "\<forall>k<length ?evs. removedSources (removeScripts k
          (fold (\<lambda>ev w1. onScriptParsed plain_env w1 1 ev) ?evs one_thread) 1)
            = removedSources one_thread
          \<and> sourceByUrl (removeScripts k
          (fold (\<lambda>ev w1. onScriptParsed plain_env w1 1 ev) ?evs one_thread) 1) ''app.js'' = Some sref"
      "removedSources (removeAllScripts
          (fold (\<lambda>ev w1. onScriptParsed plain_env w1 1 ev) ?evs one_thread) 1)
            = removedSources one_thread @ [sref]"
    by blast
  have k: "(1::nat) < length ?evs" by simp
  from r(3) k have "removedSources (removeScripts 1
          (fold (\<lambda>ev w1. onScriptParsed plain_env w1 1 ev) ?evs one_thread) 1)
            = removedSources one_thread"
    by blast
  then show ?thesis
    using r(1,2,4) by (simp add: one_thread_facts(3) parsed_def)
qed

section \<open>Properties of output slots\<close>

lemma emit_log:
  "dap_output (emit k payload s) = dap_output s \<or>
   (\<exists>pl. payload = Some pl \<and> dap_output (emit k payload s) = dap_output s @ [(k, pl)])"
  by (cases payload) (simp_all add: emit_def Let_def)

lemma fold_emit_log:
  "\<exists>new. dap_output (fold (emit k) ps s) = dap_output s @ new
      \<and> (\<forall>x\<in>set new. fst x = k \<and> Some (snd x) \<in> set ps)"
proof (induction ps arbitrary: s)
  case Nil
  show ?case by simp
next
  case (Cons p ps)
  from Cons.IH [of "emit k p s"] obtain new where
    n: "dap_output (fold (emit k) ps (emit k p s)) = dap_output (emit k p s) @ new"
      "\<forall>x\<in>set new. fst x = k \<and> Some (snd x) \<in> set ps"
    by blast
  from emit_log [of k p s] show ?case
  proof
    assume "dap_output (emit k p s) = dap_output s"
    with n show ?thesis by auto
  next
    assume "\<exists>pl. p = Some pl \<and> dap_output (emit k p s) = dap_output s @ [(k, pl)]"
    then obtain pl where "p = Some pl" "dap_output (emit k p s) = dap_output s @ [(k, pl)]"
      by blast
    with n have "dap_output (fold (emit k) (p # ps) s) = dap_output s @ ((k, pl) # new)
        \<and> (\<forall>x\<in>set ((k, pl) # new). fst x = k \<and> Some (snd x) \<in> set (p # ps))"
      by auto
    then show ?thesis by blast
  qed
qed

lemma resume_slots_log_inv:
  "resume_slots k sls s = (sls', s') \<Longrightarrow> log_inv k sls (dap_output s)
     \<Longrightarrow> log_inv k sls' (dap_output s')"
proof (induction k sls s arbitrary: sls' s' rule: resume_slots.induct)
  case (1 k s)
  then show ?case by simp
next
  case (2 k sl rest s)
  show ?case
  proof (cases "waiting sl \<noteq> []")
    case True
    let ?s1 = "fold (emit k) (waiting sl) s"
    obtain rest' s2 where r: "resume_slots (Suc k) rest ?s1 = (rest', s2)"
      by (cases "resume_slots (Suc k) rest ?s1")
    from "2.prems"(1) True r have res: "sls' = \<lparr>settled = True, waiting = []\<rparr> # rest'" "s' = s2"
      by simp_all
    from fold_emit_log [of k "waiting sl" s] obtain new where
      n: "dap_output ?s1 = dap_output s @ new" "\<forall>x\<in>set new. fst x = k"
      by blast
    have old: "\<forall>i\<in>fst ` set (dap_output s). i < k"
    proof
      fix i assume i: "i \<in> fst ` set (dap_output s)"
      show "i < k"
      proof (rule ccontr)
        assume "\<not> i < k"
        with "2.prems"(2) i have "waiting ((sl # rest) ! (k - k)) = []"
          unfolding log_inv_def by (metis le_refl not_le_imp_less order.asym nle_le)
        with True show False by simp
      qed
    qed
    have "log_inv (Suc k) rest (dap_output ?s1)"
      unfolding log_inv_def
    proof (intro conjI ballI)
      have "sorted (map fst (dap_output s))" using "2.prems"(2) by (simp add: log_inv_def)
      moreover have "sorted (map fst new)"
        using n(2) by (induction new) auto
      ultimately show "sorted (map fst (dap_output ?s1))"
        using n old by (auto simp: sorted_append less_imp_le)
    next
      fix i assume "i \<in> fst ` set (dap_output ?s1)"
      then have "i < Suc k" using n old by (auto simp: less_Suc_eq)
      then show "i < Suc k \<or> (\<forall>j. Suc k \<le> j \<and> j \<le> i \<longrightarrow> j - Suc k < length rest
          \<and> settled (rest ! (j - Suc k)) \<and> waiting (rest ! (j - Suc k)) = [])"
        by simp
    qed
    from "2.IH"(1) [OF True r this] have ih: "log_inv (Suc k) rest' (dap_output s2)" .
    show ?thesis
      unfolding res log_inv_def
    proof (intro conjI ballI)
      show "sorted (map fst (dap_output s2))" using ih by (simp add: log_inv_def)
    next
      fix i assume i: "i \<in> fst ` set (dap_output s2)"
      show "i < k \<or> (\<forall>j. k \<le> j \<and> j \<le> i \<longrightarrow>
          j - k < length (\<lparr>settled = True, waiting = []\<rparr> # rest')
          \<and> settled ((\<lparr>settled = True, waiting = []\<rparr> # rest') ! (j - k))
          \<and> waiting ((\<lparr>settled = True, waiting = []\<rparr> # rest') ! (j - k)) = [])"
      proof (cases "i < Suc k")
        case True
        then show ?thesis by (auto simp: less_Suc_eq)
      next
        case False
        with ih i have a: "\<forall>j. Suc k \<le> j \<and> j \<le> i \<longrightarrow> j - Suc k < length rest'
          \<and> settled (rest' ! (j - Suc k)) \<and> waiting (rest' ! (j - Suc k)) = []"
          unfolding log_inv_def by blast
        have "j - k < length (\<lparr>settled = True, waiting = []\<rparr> # rest')
          \<and> settled ((\<lparr>settled = True, waiting = []\<rparr> # rest') ! (j - k))
          \<and> waiting ((\<lparr>settled = True, waiting = []\<rparr> # rest') ! (j - k)) = []"
          if "k \<le> j \<and> j \<le> i" for j
        proof (cases "j = k")
          case True
          then show ?thesis by simp
        next
          case False
          with that have "Suc k \<le> j \<and> j \<le> i" by arith
          with a have "j - Suc k < length rest'
            \<and> settled (rest' ! (j - Suc k)) \<and> waiting (rest' ! (j - Suc k)) = []" by blast
          moreover have "j - k = Suc (j - Suc k)" using False that by arith
          ultimately show ?thesis by simp
        qed
        then show ?thesis by blast
      qed
    qed
  next
    case False
    note nowait = False
    show ?thesis
    proof (cases "settled sl")
      case True
      obtain rest' s2 where r: "resume_slots (Suc k) rest s = (rest', s2)"
        by (cases "resume_slots (Suc k) rest s")
      from "2.prems"(1) nowait True r have res: "sls' = sl # rest'" "s' = s2"
        by simp_all
      have "log_inv (Suc k) rest (dap_output s)"
        unfolding log_inv_def
      proof (intro conjI ballI)
        show "sorted (map fst (dap_output s))" using "2.prems"(2) by (simp add: log_inv_def)
      next
        fix i assume i: "i \<in> fst ` set (dap_output s)"
        show "i < Suc k \<or> (\<forall>j. Suc k \<le> j \<and> j \<le> i \<longrightarrow> j - Suc k < length rest
          \<and> settled (rest ! (j - Suc k)) \<and> waiting (rest ! (j - Suc k)) = [])"
        proof (cases "i < Suc k")
          case True
          then show ?thesis by simp
        next
          case False
          with "2.prems"(2) i have a: "\<forall>j. k \<le> j \<and> j \<le> i \<longrightarrow> j - k < length (sl # rest)
            \<and> settled ((sl # rest) ! (j - k)) \<and> waiting ((sl # rest) ! (j - k)) = []"
            unfolding log_inv_def by auto
          have "j - Suc k < length rest
            \<and> settled (rest ! (j - Suc k)) \<and> waiting (rest ! (j - Suc k)) = []"
            if "Suc k \<le> j \<and> j \<le> i" for j
          proof -
            from that have "k \<le> j \<and> j \<le> i" by arith
            with a have "j - k < length (sl # rest)
              \<and> settled ((sl # rest) ! (j - k)) \<and> waiting ((sl # rest) ! (j - k)) = []"
              by blast
            moreover have "j - k = Suc (j - Suc k)" using that by arith
            ultimately show ?thesis by simp
          qed
          then show ?thesis by blast
        qed
      qed
      from "2.IH"(2) [OF nowait True r this] have ih: "log_inv (Suc k) rest' (dap_output s2)" .
      show ?thesis
        unfolding res log_inv_def
      proof (intro conjI ballI)
        show "sorted (map fst (dap_output s2))" using ih by (simp add: log_inv_def)
      next
        fix i assume i: "i \<in> fst ` set (dap_output s2)"
        show "i < k \<or> (\<forall>j. k \<le> j \<and> j \<le> i \<longrightarrow> j - k < length (sl # rest')
            \<and> settled ((sl # rest') ! (j - k)) \<and> waiting ((sl # rest') ! (j - k)) = [])"
        proof (cases "i < Suc k")
          case True
          then show ?thesis using nowait \<open>settled sl\<close> by (auto simp: less_Suc_eq)
        next
          case False
          with ih i have a: "\<forall>j. Suc k \<le> j \<and> j \<le> i \<longrightarrow> j - Suc k < length rest'
            \<and> settled (rest' ! (j - Suc k)) \<and> waiting (rest' ! (j - Suc k)) = []"
            unfolding log_inv_def by blast
          have "j - k < length (sl # rest')
            \<and> settled ((sl # rest') ! (j - k)) \<and> waiting ((sl # rest') ! (j - k)) = []"
            if "k \<le> j \<and> j \<le> i" for j
          proof (cases "j = k")
            case True
            then show ?thesis using nowait \<open>settled sl\<close> by simp
          next
            case False
            with that have "Suc k \<le> j \<and> j \<le> i" by arith
            with a have "j - Suc k < length rest'
              \<and> settled (rest' ! (j - Suc k)) \<and> waiting (rest' ! (j - Suc k)) = []" by blast
            moreover have "j - k = Suc (j - Suc k)" using False that by arith
            ultimately show ?thesis by simp
          qed
          then show ?thesis by blast
        qed
      qed
    next
      case False
      with "2.prems" nowait show ?thesis by simp
    qed
  qed
qed

lemma run_jobs_inv:
  assumes "log_inv 0 (slots s) (dap_output s)"
  shows "log_inv 0 (slots (run_jobs s)) (dap_output (run_jobs s))"
proof -
  obtain sls s' where r: "resume_slots 0 (slots s) s = (sls, s')"
    by (cases "resume_slots 0 (slots s) s")
  from resume_slots_log_inv [OF r assms] show ?thesis
    by (simp add: run_jobs_def r)
qed

lemma run_jobs_inv':
  assumes "log_inv 0 sls (dap_output s)"
  shows "log_inv 0 (slots (run_jobs (s\<lparr>slots := sls\<rparr>))) (dap_output (run_jobs (s\<lparr>slots := sls\<rparr>)))"
  using run_jobs_inv [of "s\<lparr>slots := sls\<rparr>"] assms by simp

lemma log_inv_0:
  "log_inv 0 sls lg =
     (sorted (map fst lg) \<and>
      (\<forall>i\<in>fst ` set lg. \<forall>j\<le>i. j < length sls \<and> settled (sls ! j) \<and> waiting (sls ! j) = []))"
  by (simp add: log_inv_def)

lemma log_invI:
  assumes "sorted (map fst lg)"
    and "\<And>i j. i \<in> fst ` set lg \<Longrightarrow> j \<le> i \<Longrightarrow>
           j < length sls \<and> settled (sls ! j) \<and> waiting (sls ! j) = []"
  shows "log_inv 0 sls lg"
  using assms unfolding log_inv_0 by blast

lemma log_invD:
  assumes "log_inv 0 sls lg" and "i \<in> fst ` set lg" and "j \<le> i"
  shows "j < length sls" and "settled (sls ! j)" and "waiting (sls ! j) = []"
  using assms unfolding log_inv_0 by blast+

lemma output_step_inv:
  assumes "log_inv 0 (slots s) (dap_output s)" and "in_time s e"
  shows "log_inv 0 (slots (output_step s e)) (dap_output (output_step s e))"
proof (cases e)
  case Claim
  have "log_inv 0 (slots s @ [\<lparr>settled = False, waiting = []\<rparr>]) (dap_output s)"
  proof (rule log_invI)
    show "sorted (map fst (dap_output s))" using assms(1) by (simp add: log_inv_0)
  next
    fix i j assume i: "i \<in> fst ` set (dap_output s)" and j: "j \<le> i"
    from log_invD [OF assms(1) i j] have a: "j < length (slots s)" "settled (slots s ! j)"
      "waiting (slots s ! j) = []"
      by simp_all
    then show "j < length (slots s @ [\<lparr>settled = False, waiting = []\<rparr>])
      \<and> settled ((slots s @ [\<lparr>settled = False, waiting = []\<rparr>]) ! j)
      \<and> waiting ((slots s @ [\<lparr>settled = False, waiting = []\<rparr>]) ! j) = []"
      by (simp add: nth_append)
  qed
  from run_jobs_inv' [OF this] show ?thesis using Claim by simp
next
  case (Deliver k payload)
  with assms(2) have k: "k < length (slots s)" "\<not> settled (slots s ! k)" by simp_all
  have "log_inv 0 ((slots s)[k := (slots s ! k)\<lparr>waiting := waiting (slots s ! k) @ [payload]\<rparr>])
      (dap_output s)"
  proof (rule log_invI)
    show "sorted (map fst (dap_output s))" using assms(1) by (simp add: log_inv_0)
  next
    fix i j assume i: "i \<in> fst ` set (dap_output s)" and j: "j \<le> i"
    from log_invD [OF assms(1) i j] have a: "j < length (slots s)" "settled (slots s ! j)"
      "waiting (slots s ! j) = []"
      by simp_all
    with k(2) have "j \<noteq> k" by auto
    with a show "j < length ((slots s)[k := (slots s ! k)\<lparr>waiting := waiting (slots s ! k) @ [payload]\<rparr>])
      \<and> settled ((slots s)[k := (slots s ! k)\<lparr>waiting := waiting (slots s ! k) @ [payload]\<rparr>] ! j)
      \<and> waiting ((slots s)[k := (slots s ! k)\<lparr>waiting := waiting (slots s ! k) @ [payload]\<rparr>] ! j) = []"
      by simp
  qed
  from run_jobs_inv' [OF this] show ?thesis using Deliver k(1) by simp
next
  case (Timeout k)
  show ?thesis
  proof (cases "k < length (slots s)")
    case True
    have "log_inv 0 ((slots s)[k := (slots s ! k)\<lparr>settled := True\<rparr>]) (dap_output s)"
    proof (rule log_invI)
      show "sorted (map fst (dap_output s))" using assms(1) by (simp add: log_inv_0)
    next
      fix i j assume i: "i \<in> fst ` set (dap_output s)" and j: "j \<le> i"
      from log_invD [OF assms(1) i j] have a: "j < length (slots s)" "settled (slots s ! j)"
        "waiting (slots s ! j) = []"
        by simp_all
      then show "j < length ((slots s)[k := (slots s ! k)\<lparr>settled := True\<rparr>])
        \<and> settled ((slots s)[k := (slots s ! k)\<lparr>settled := True\<rparr>] ! j)
        \<and> waiting ((slots s)[k := (slots s ! k)\<lparr>settled := True\<rparr>] ! j) = []"
        by (cases "j = k") simp_all
    qed
    from run_jobs_inv' [OF this] show ?thesis using Timeout True by simp
  next
    case False
    then show ?thesis using Timeout assms(1) by simp
  qed
qed

lemma output_run_inv:
  "log_inv 0 (slots s) (dap_output s) \<Longrightarrow> timely s es \<Longrightarrow>
     log_inv 0 (slots (output_run s es)) (dap_output (output_run s es))"
proof (induction es arbitrary: s)
  case Nil
  then show ?case by (simp add: output_run_def)
next
  case (Cons e es)
  from Cons.prems have "in_time s e" "timely (output_step s e) es" by simp_all
  from Cons.IH [OF output_step_inv [OF Cons.prems(1) this(1)] this(2)]
  show ?case by (simp add: output_run_def)
qed

text \<open>
  Claim C1, as amended. For every sequence of claims, calls of delivery functions and
  timers in which no delivery function is called after its slot has been settled (by
  its timer, or by an earlier call that has run), the payloads sent to the client are
  in the order of their slots' claims, whatever the order of the calls.
\<close>

theorem output_in_claim_order:
  assumes "timely new_output_state es"
  shows "sorted (map fst (dap_output (output_run new_output_state es)))"
proof -
  have "log_inv 0 (slots new_output_state) (dap_output new_output_state)"
    by (simp add: log_inv_def new_output_state_def)
  from output_run_inv [OF this assms] show ?thesis by (simp add: log_inv_def)
qed









lemma output_run_snoc: "output_run s (es @ [e]) = output_step (output_run s es) e"
  by (simp add: output_run_def)






lemma emit_mono: "set (dap_output s) \<subseteq> set (dap_output (emit k p s))"
  using emit_log [of k p s] by auto




theorem output_in_claim_order_witness:
  "timely new_output_state
      [Claim, Claim, Deliver 1 (Some (text_payload ''B'')), Deliver 0 (Some (text_payload ''A''))]
   \<and> sorted (map fst (dap_output (output_run new_output_state
      [Claim, Claim, Deliver 1 (Some (text_payload ''B'')), Deliver 0 (Some (text_payload ''A''))])))
   \<and> dap_output (output_run new_output_state
      [Claim, Claim, Deliver 1 (Some (text_payload ''B'')), Deliver 0 (Some (text_payload ''A''))])
     = [(0, text_payload ''A''), (1, text_payload ''B'')]"
proof -
  have t: "timely new_output_state
      [Claim, Claim, Deliver 1 (Some (text_payload ''B'')), Deliver 0 (Some (text_payload ''A''))]"
    by code_simp
  have v: "dap_output (output_run new_output_state
      [Claim, Claim, Deliver 1 (Some (text_payload ''B'')), Deliver 0 (Some (text_payload ''A''))])
     = [(0, text_payload ''A''), (1, text_payload ''B'')]"
    by code_simp
  show ?thesis
    by (intro conjI) (rule t, rule output_in_claim_order [OF t], rule v)
qed

text \<open>
  The claim as stated fails when a timer fires first: slots 0 and 1 are claimed, the
  timer of slot 0 fires, slot 1 delivers \<open>B\<close>, and then slot 0 delivers \<open>A\<close>. The
  client receives \<open>B\<close> before \<open>A\<close>.
\<close>

theorem output_after_timeout_out_of_order:
  "dap_output (output_run new_output_state
      [Claim, Claim, Timeout 0, Deliver 1 (Some (text_payload ''B'')),
       Deliver 0 (Some (text_payload ''A''))])
     = [(1, text_payload ''B''), (0, text_payload ''A'')]
   \<and> \<not> sorted (map fst (dap_output (output_run new_output_state
      [Claim, Claim, Timeout 0, Deliver 1 (Some (text_payload ''B'')),
       Deliver 0 (Some (text_payload ''A''))])))"
proof -
  have v: "dap_output (output_run new_output_state
      [Claim, Claim, Timeout 0, Deliver 1 (Some (text_payload ''B'')),
       Deliver 0 (Some (text_payload ''A''))])
     = [(1, text_payload ''B''), (0, text_payload ''A'')]"
    by code_simp
  show ?thesis unfolding v by simp
qed

section \<open>Properties of output slots with their timers\<close>

















lemma output_run_single: "output_run s [ev] = output_step s ev"
  by (simp add: output_run_def)

lemma timed_step_serialized:
  "\<exists>es. serialized (timed_step e ts ev) = output_run (serialized ts) es
      \<and> (\<forall>k p. Deliver k p \<in> set es \<longrightarrow> ev = Call k p)
      \<and> (Claim \<in> set es \<longrightarrow> ev = ClaimSlot)"
proof (cases ev)
  case ClaimSlot
  have "serialized (timed_step e ts ev) = output_run (serialized ts) [Claim]"
    using ClaimSlot by (simp add: claimOutputSlot_def output_run_single)
  then show ?thesis using ClaimSlot by (intro exI [of _ "[Claim]"]) simp
next
  case (Call k p)
  have "serialized (timed_step e ts ev) = output_run (serialized ts) [Deliver k p]"
    using Call by (simp add: output_run_single)
  then show ?thesis using Call by (intro exI [of _ "[Deliver k p]"]) simp
next
  case (Elapse d)
  let ?es = "map (\<lambda>t. Timeout (fst t)) (filter (\<lambda>t. snd t \<le> clock ts + d) (timers ts))"
  have "serialized (timed_step e ts ev) = output_run (serialized ts) ?es"
    using Elapse by (simp add: run_timers_def)
  moreover have "\<forall>k p. Deliver k p \<notin> set ?es" by auto
  moreover have "Claim \<notin> set ?es" by auto
  ultimately show ?thesis by (intro exI [of _ ?es]) simp
qed







lemma timed_run_snoc: "timed_run e ts (evs @ [ev]) = timed_step e (timed_run e ts evs) ev"
  by (simp add: timed_run_def)

lemma timed_run_append: "timed_run e ts (evs @ evs') = timed_run e (timed_run e ts evs) evs'"
  by (simp add: timed_run_def)



















text \<open>
  Every run in time is a run of the slots, with the timers' firings placed by the
  clock.
\<close>

lemma timed_run_is_output_run:
  "\<exists>es. serialized (timed_run e new_timed_state evs) = output_run new_output_state es"
proof (induction evs rule: rev_induct)
  case Nil
  have "serialized (timed_run e new_timed_state []) = output_run new_output_state []"
    by (simp add: timed_run_def output_run_def new_timed_state_def)
  then show ?case by blast
next
  case (snoc ev evs)
  then obtain es where
    es: "serialized (timed_run e new_timed_state evs) = output_run new_output_state es"
    by blast
  from timed_step_serialized [of e "timed_run e new_timed_state evs" ev] obtain es' where
    "serialized (timed_step e (timed_run e new_timed_state evs) ev)
       = output_run (serialized (timed_run e new_timed_state evs)) es'"
    by blast
  then have "serialized (timed_run e new_timed_state (evs @ [ev]))
       = output_run new_output_state (es @ es')"
    by (simp add: timed_run_snoc es output_run_def)
  then show ?case by blast
qed




text \<open>
  The run that breaks the claim order, in time: both slots are claimed, the configured
  time passes and both timers fire, then slot 1 delivers \<open>B\<close> and slot 0 delivers \<open>A\<close>.
\<close>

lemma late_delivery_in_time:
  "dap_output (serialized (timed_run plain_env new_timed_state
      [ClaimSlot, ClaimSlot, Elapse 1000, Call 1 (Some (text_payload ''B'')),
       Call 0 (Some (text_payload ''A''))]))
     = [(1, text_payload ''B''), (0, text_payload ''A'')]"
  by code_simp

end
